theory Spec2Isabelle
  imports Complex_Main "HOL-Library.Char_ord" "HOL-Library.List_Lexorder" "HOL-Library.Sublist"
begin

section \<open>The preprocessing pipeline of scripts/preprocess.py\<close>

text \<open>
  The pipeline works on pandas data frames. A frame is modelled row by row: the list of
  its columns (name and dtype) and the list of its rows, each row holding one cell
  per column. Numbers are exact rationals: the rounding of float64 and float32 is outside
  the model, which agrees with the library where the arithmetic of a call is exact (whole
  numbers, halves and quarters of moderate size, as in the examples below) and can differ
  from it in the last bit elsewhere. A missing value (NaN) is the cell \<open>NA\<close>. Row labels are not modelled: the frames of
  this pipeline carry the unique labels \<open>read_csv\<close> gives them, so that aligning on
  labels is aligning on positions. Exceptions are values of the type \<open>error\<close>; the
  info-level log lines of the cleaning, outlier and feature stages do not influence any
  result and are left out.
\<close>

subsection \<open>Data model\<close>

text \<open>The dtypes of the pipeline: \<open>Integer w\<close> is the signed integer dtype of \<open>w\<close> bits
  (\<open>int8\<close>, \<open>int16\<close>, \<open>int32\<close>, \<open>int64\<close>), which holds whole numbers of its range and
  no missing value; \<open>Numeric\<close> is a float dtype (\<open>float64\<close>, \<open>float32\<close>);
  \<open>Categorical\<close> stands for the dtypes of strings (\<open>category\<close>, \<open>object\<close>,
  \<open>str\<close>).\<close>

datatype dtype = Integer nat | Numeric | Categorical

datatype cell = NA | Num rat | Str string

datatype error =
    FileNotFoundError | LoadError string | KeyError | TypeError | ValueError | IndexingError

type_synonym row = "cell list"

record table =
  columns :: "(string \<times> dtype) list"
  rows :: "row list"

definition col_names :: "table \<Rightarrow> string list" where
  "col_names t = map fst (columns t)"

fun index_of :: "'a \<Rightarrow> 'a list \<Rightarrow> nat option" where
  "index_of x [] = None"
| "index_of x (y # ys) = (if x = y then Some 0 else map_option Suc (index_of x ys))"

definition column_at :: "nat \<Rightarrow> row list \<Rightarrow> cell list" where
  "column_at i rs = map (\<lambda>r. r ! i) rs"

definition dtype_at :: "table \<Rightarrow> nat \<Rightarrow> dtype" where
  "dtype_at t i = snd (columns t ! i)"

text \<open>The numbers an integer dtype of \<open>w\<close> bits holds, and the values a column of a
  dtype holds.\<close>

definition int_range :: "nat \<Rightarrow> rat \<Rightarrow> bool" where
  "int_range w x = (of_int \<lfloor>x\<rfloor> = x \<and> - (2 ^ (w - 1)) \<le> x \<and> x < 2 ^ (w - 1))"

definition cell_ok :: "dtype \<Rightarrow> cell \<Rightarrow> bool" where
  "cell_ok d c =
     (case d of
        Integer w \<Rightarrow> (case c of Num x \<Rightarrow> int_range w x | _ \<Rightarrow> False)
      | Numeric \<Rightarrow> (case c of Str s \<Rightarrow> False | _ \<Rightarrow> True)
      | Categorical \<Rightarrow> (case c of Num x \<Rightarrow> False | _ \<Rightarrow> True))"

definition row_ok :: "(string \<times> dtype) list \<Rightarrow> row \<Rightarrow> bool" where
  "row_ok cs r = (length r = length cs \<and> list_all2 (\<lambda>c v. cell_ok (snd c) v) cs r)"

definition wf_table :: "table \<Rightarrow> bool" where
  "wf_table t = (distinct (col_names t) \<and> list_all (row_ok (columns t)) (rows t))"

text \<open>\<open>Series.dropna\<close> on a numeric and on a string column.\<close>

fun dropna_num :: "cell list \<Rightarrow> rat list" where
  "dropna_num [] = []"
| "dropna_num (Num x # cs) = x # dropna_num cs"
| "dropna_num (c # cs) = dropna_num cs"

fun dropna_str :: "cell list \<Rightarrow> string list" where
  "dropna_str [] = []"
| "dropna_str (Str s # cs) = s # dropna_str cs"
| "dropna_str (c # cs) = dropna_str cs"

text \<open>\<open>df[name] = values\<close>: an existing column is overwritten in place (values and
  dtype), a new one is appended on the right. The values are given per row.\<close>

definition set_column :: "string \<Rightarrow> dtype \<Rightarrow> (row \<Rightarrow> cell) \<Rightarrow> table \<Rightarrow> table" where
  "set_column name d f t =
     (case index_of name (col_names t) of
        Some i \<Rightarrow> \<lparr>columns = (columns t)[i := (name, d)],
                   rows = map (\<lambda>r. r[i := f r]) (rows t)\<rparr>
      | None \<Rightarrow> \<lparr>columns = columns t @ [(name, d)],
                 rows = map (\<lambda>r. r @ [f r]) (rows t)\<rparr>)"

subsection \<open>Binning: \<open>pd.cut\<close>\<close>

text \<open>Bin edges may be infinite (\<open>np.inf\<close>).\<close>

datatype edge = NegInf | Fin rat | PosInf

fun edge_less :: "edge \<Rightarrow> rat \<Rightarrow> bool" where
  "edge_less NegInf x = True"
| "edge_less (Fin b) x = (b < x)"
| "edge_less PosInf x = False"

fun edge_le :: "edge \<Rightarrow> rat \<Rightarrow> bool" where
  "edge_le NegInf x = True"
| "edge_le (Fin b) x = (b \<le> x)"
| "edge_le PosInf x = False"

text \<open>\<open>bins.searchsorted(x, side)\<close> on increasing edges: the number of edges below
  \<open>x\<close> (side left) or not above \<open>x\<close> (side right).\<close>

definition searchsorted :: "bool \<Rightarrow> edge list \<Rightarrow> rat \<Rightarrow> nat" where
  "searchsorted side_left bins x =
     length (takeWhile (\<lambda>b. if side_left then edge_less b x else edge_le b x) bins)"

text \<open>\<open>pd.cut(x, bins, labels, right)\<close> on one value, with \<open>include_lowest=False\<close>:
  \<open>ids = bins.searchsorted(x, side='left' if right else 'right')\<close>, and the value is
  missing where \<open>x\<close> is missing, \<open>ids = 0\<close> or \<open>ids = len(bins)\<close>; otherwise it
  falls into bin \<open>ids - 1\<close>, whose position is its category code.\<close>

definition cut_code :: "edge list \<Rightarrow> bool \<Rightarrow> rat \<Rightarrow> nat option" where
  "cut_code bins right x =
     (let ids = searchsorted right bins x
      in if ids = 0 \<or> ids = length bins then None else Some (ids - 1))"

definition cut_cell :: "edge list \<Rightarrow> string list \<Rightarrow> bool \<Rightarrow> cell \<Rightarrow> cell" where
  "cut_cell bins labels right c =
     (case c of
        Num x \<Rightarrow> (case cut_code bins right x of None \<Rightarrow> NA | Some i \<Rightarrow> Str (labels ! i))
      | _ \<Rightarrow> NA)"

text \<open>Comparing a string with a number raises \<open>TypeError\<close>: a column can be binned or
  compared with a number only if it holds no string.\<close>

definition is_str :: "cell \<Rightarrow> bool" where
  "is_str c = (case c of Str s \<Rightarrow> True | _ \<Rightarrow> False)"

definition has_str :: "nat \<Rightarrow> row list \<Rightarrow> bool" where
  "has_str i rs = list_ex is_str (column_at i rs)"

text \<open>\<open>Series.cat.codes\<close>: the position of the label among the categories, \<open>-1\<close>
  for a missing value.\<close>

definition cat_codes :: "string list \<Rightarrow> cell \<Rightarrow> cell" where
  "cat_codes labels c =
     (case c of
        Str s \<Rightarrow> (case index_of s labels of Some k \<Rightarrow> Num (of_nat k) | None \<Rightarrow> Num (- 1))
      | _ \<Rightarrow> Num (- 1))"

subsection \<open>\<open>feature_engineering\<close>\<close>

definition age_bins :: "edge list" where
  "age_bins = [Fin 0, Fin 18, Fin 25, Fin 35, Fin 45, Fin 55, Fin 65, Fin 100]"

definition age_labels :: "string list" where
  "age_labels = [''<18'', ''18-24'', ''25-34'', ''35-44'', ''45-54'', ''55-64'', ''65+'']"

definition purchase_bins :: "edge list" where
  "purchase_bins = [NegInf, Fin 30, Fin 50, Fin 75, Fin 100, PosInf]"

definition purchase_labels :: "string list" where
  "purchase_labels = [''Very Low'', ''Low'', ''Medium'', ''High'', ''Very High'']"

text \<open>1. Age grouping: \<open>pd.cut(df["Age"], bins, labels, right=False)\<close>, then the
  ordinal codes of the new column.\<close>

definition add_age_group :: "table \<Rightarrow> error + table" where
  "add_age_group t =
     (case index_of ''Age'' (col_names t) of
        None \<Rightarrow> Inr t
      | Some i \<Rightarrow>
          if has_str i (rows t) then Inl TypeError
          else
            let t1 = set_column ''Age_Group'' Categorical
                       (\<lambda>r. cut_cell age_bins age_labels False (r ! i)) t;
                j = the (index_of ''Age_Group'' (col_names t1))
            in Inr (set_column ''Age_Group_Ordinal'' (Integer 8)
                      (\<lambda>r. cat_codes age_labels (r ! j)) t1))"

text \<open>2. Purchase value categories: \<open>pd.cut\<close> with the default \<open>right=True\<close>.\<close>

definition add_purchase_category :: "table \<Rightarrow> error + table" where
  "add_purchase_category t =
     (case index_of ''Purchase Amount (USD)'' (col_names t) of
        None \<Rightarrow> Inr t
      | Some i \<Rightarrow>
          if has_str i (rows t) then Inl TypeError
          else Inr (set_column ''Purchase_Category'' Categorical
                      (\<lambda>r. cut_cell purchase_bins purchase_labels True (r ! i)) t))"

text \<open>3. Discount and promo interaction, only when both columns are present.\<close>

definition add_discount_or_promo :: "table \<Rightarrow> table" where
  "add_discount_or_promo t =
     (case (index_of ''Discount Applied'' (col_names t),
            index_of ''Promo Code Used'' (col_names t)) of
        (Some a, Some b) \<Rightarrow>
          set_column ''Discount_or_Promo'' Categorical
            (\<lambda>r. if r ! a = Str ''Yes'' \<or> r ! b = Str ''Yes'' then Str ''Yes'' else Str ''No'') t
      | _ \<Rightarrow> t)"

text \<open>4. Loyalty flag: \<open>(df["Previous Purchases"] >= 10).astype("int8")\<close>; a missing
  value compares false.\<close>

definition add_is_repeat_customer :: "table \<Rightarrow> error + table" where
  "add_is_repeat_customer t =
     (case index_of ''Previous Purchases'' (col_names t) of
        None \<Rightarrow> Inr t
      | Some i \<Rightarrow>
          if has_str i (rows t) then Inl TypeError
          else Inr (set_column ''Is_Repeat_Customer'' (Integer 8)
                      (\<lambda>r. case r ! i of Num x \<Rightarrow> (if 10 \<le> x then Num 1 else Num 0)
                                        | _ \<Rightarrow> Num 0) t))"

text \<open>5. Season and category interaction. What \<open>astype(str)\<close> gives depends on the
  library in two points, which are the two fields of the parameter \<open>fmt\<close>: how Python
  prints a number (\<open>num_str\<close>), and what becomes of a missing value (\<open>na_str\<close>).
  pandas before 3.0 casts it to the string \<open>nan\<close> (\<open>na_str = Some ''nan''\<close>); from pandas
  3.0 on the result has the \<open>str\<close> dtype and the value stays missing
  (\<open>na_str = None\<close>). A string concatenated with a missing value is missing.\<close>

record printer =
  num_str :: "rat \<Rightarrow> string"
  na_str :: "string option"

definition astype_str :: "printer \<Rightarrow> cell \<Rightarrow> string option" where
  "astype_str fmt c =
     (case c of NA \<Rightarrow> na_str fmt | Num x \<Rightarrow> Some (num_str fmt x) | Str s \<Rightarrow> Some s)"

definition add_season_category :: "printer \<Rightarrow> table \<Rightarrow> table" where
  "add_season_category fmt t =
     (case (index_of ''Season'' (col_names t), index_of ''Category'' (col_names t)) of
        (Some a, Some b) \<Rightarrow>
          set_column ''Season_Category'' Categorical
            (\<lambda>r. case (astype_str fmt (r ! a), astype_str fmt (r ! b)) of
                    (Some x, Some y) \<Rightarrow> Str (x @ ''_'' @ y)
                  | _ \<Rightarrow> NA) t
      | _ \<Rightarrow> t)"

text \<open>An exception ends the function: the steps are chained on the right summand.\<close>

definition bind_err :: "error + 'a \<Rightarrow> ('a \<Rightarrow> error + 'b) \<Rightarrow> error + 'b" where
  "bind_err m f = (case m of Inl e \<Rightarrow> Inl e | Inr x \<Rightarrow> f x)"

text \<open>The value \<open>feature_engineering\<close> returns: the steps applied to the copy of the
  frame, in the order of the source.\<close>

definition feature_engineering :: "printer \<Rightarrow> table \<Rightarrow> error + table" where
  "feature_engineering fmt t =
     bind_err (add_age_group t) (\<lambda>t1.
     bind_err (add_purchase_category t1) (\<lambda>t2.
     bind_err (add_is_repeat_customer (add_discount_or_promo t2)) (\<lambda>t4.
     Inr (add_season_category fmt t4))))"

subsection \<open>Column statistics\<close>

text \<open>\<open>Series.median\<close> over the non-missing values: the middle value, or the mean of
  the two middle values; missing (\<open>None\<close>) for an empty series.\<close>

definition median :: "rat list \<Rightarrow> rat option" where
  "median xs =
     (if xs = [] then None
      else
        let s = sort xs; n = length xs
        in Some (if odd n then s ! (n div 2) else (s ! (n div 2 - 1) + s ! (n div 2)) / 2))"

text \<open>\<open>Series.quantile(q)\<close> with the default linear interpolation: position
  \<open>q * (n - 1)\<close> in the sorted values; missing for an empty series.\<close>

definition quantile :: "rat \<Rightarrow> rat list \<Rightarrow> rat option" where
  "quantile q xs =
     (if xs = [] then None
      else
        let s = sort xs;
            h = q * of_nat (length xs - 1);
            lo = nat \<lfloor>h\<rfloor>;
            hi = min (lo + 1) (length xs - 1)
        in Some (s ! lo + (h - of_int \<lfloor>h\<rfloor>) * (s ! hi - s ! lo)))"

text \<open>\<open>Series.mode()[0]\<close>: \<open>mode()\<close> returns the most frequent non-missing values in
  sorted order, so position 0 holds the least of them; on a series without values the
  result is empty and position 0 does not exist. For a \<open>category\<close> dtype the order of
  the result is the order of the categories, which is the sorted order for the columns
  \<open>read_csv\<close> creates; a frame whose categories were put in another order by hand is
  outside the model where two values tie.\<close>

fun most_frequent :: "'a list \<Rightarrow> 'a \<Rightarrow> 'a list \<Rightarrow> 'a" where
  "most_frequent xs b [] = b"
| "most_frequent xs b (y # ys) =
     most_frequent xs (if count_list xs b < count_list xs y then y else b) ys"

definition mode :: "string list \<Rightarrow> string option" where
  "mode xs = (case sort (remdups xs) of [] \<Rightarrow> None | y # ys \<Rightarrow> Some (most_frequent xs y ys))"

subsection \<open>\<open>clean_data\<close>\<close>

text \<open>\<open>df.drop_duplicates()\<close> keeps the first of equal rows (two missing values count
  as equal) and the order of the rows.\<close>

definition drop_duplicates :: "row list \<Rightarrow> row list" where
  "drop_duplicates rs = rev (remdups (rev rs))"

text \<open>\<open>df[num_cols].fillna(df[num_cols].median())\<close>: one fill value per column, a
  missing median fills nothing.\<close>

definition numeric_medians :: "(string \<times> dtype) list \<Rightarrow> row list \<Rightarrow> cell list" where
  "numeric_medians cs rs =
     map (\<lambda>i. if snd (cs ! i) \<noteq> Categorical
              then (case median (dropna_num (column_at i rs)) of Some m \<Rightarrow> Num m | None \<Rightarrow> NA)
              else NA) [0..<length cs]"

definition fillna_rows :: "cell list \<Rightarrow> row list \<Rightarrow> row list" where
  "fillna_rows fills rs = map (\<lambda>r. map2 (\<lambda>f c. if c = NA then f else c) fills r) rs"

definition fillna_column :: "nat \<Rightarrow> cell \<Rightarrow> row list \<Rightarrow> row list" where
  "fillna_column i v rs = map (\<lambda>r. if r ! i = NA then r[i := v] else r) rs"

text \<open>The loop over the categorical columns: a column with a missing value is filled with
  its mode; \<open>mode()[0]\<close> raises \<open>KeyError\<close> when the column has no value at all.\<close>

fun fill_modes :: "nat list \<Rightarrow> row list \<Rightarrow> error + row list" where
  "fill_modes [] rs = Inr rs"
| "fill_modes (i # is) rs =
     (if NA \<in> set (column_at i rs)
      then (case mode (dropna_str (column_at i rs)) of
              None \<Rightarrow> Inl KeyError
            | Some mode_val \<Rightarrow> fill_modes is (fillna_column i (Str mode_val) rs))
      else fill_modes is rs)"

definition cat_cols :: "(string \<times> dtype) list \<Rightarrow> nat list" where
  "cat_cols cs = filter (\<lambda>i. snd (cs ! i) = Categorical) [0..<length cs]"

definition clean_data :: "table \<Rightarrow> error + table" where
  "clean_data df =
     (let rs = drop_duplicates (rows df);
          rs1 = fillna_rows (numeric_medians (columns df) rs) rs
      in case fill_modes (cat_cols (columns df)) rs1 of
           Inl e \<Rightarrow> Inl e
         | Inr rs2 \<Rightarrow> Inr (df\<lparr>rows := rs2\<rparr>))"

subsection \<open>\<open>detect_and_handle_outliers\<close>\<close>

text \<open>The fences \<open>Q1 - threshold * IQR\<close> and \<open>Q3 + threshold * IQR\<close>, missing for
  an empty series (the quartiles are NaN and every comparison with them is false). They
  are computed exactly here; float64 computes them with a rounding of each operation, so
  that a value of the column can compare differently with a fence it equals in exact
  arithmetic.\<close>

definition iqr_bounds :: "rat \<Rightarrow> rat list \<Rightarrow> (rat \<times> rat) option" where
  "iqr_bounds threshold series =
     (case (quantile (1 / 4) series, quantile (3 / 4) series) of
        (Some Q1, Some Q3) \<Rightarrow>
          Some (Q1 - threshold * (Q3 - Q1), Q3 + threshold * (Q3 - Q1))
      | _ \<Rightarrow> None)"

definition is_outlier :: "rat \<Rightarrow> rat \<Rightarrow> rat \<Rightarrow> bool" where
  "is_outlier lower upper x = (x < lower \<or> upper < x)"

text \<open>\<open>df_out.loc[df_out[col] < lower, col] = lower\<close> and the same above \<open>upper\<close>; a
  missing value compares false and stays.\<close>

definition cap_below :: "nat \<Rightarrow> rat \<Rightarrow> row list \<Rightarrow> row list" where
  "cap_below i lower rs =
     map (\<lambda>r. case r ! i of Num x \<Rightarrow> (if x < lower then r[i := Num lower] else r) | _ \<Rightarrow> r) rs"

definition cap_above :: "nat \<Rightarrow> rat \<Rightarrow> row list \<Rightarrow> row list" where
  "cap_above i upper rs =
     map (\<lambda>r. case r ! i of Num x \<Rightarrow> (if upper < x then r[i := Num upper] else r) | _ \<Rightarrow> r) rs"

definition keeps :: "nat \<Rightarrow> rat \<Rightarrow> rat \<Rightarrow> row \<Rightarrow> bool" where
  "keeps i lower upper r = (case r ! i of Num x \<Rightarrow> \<not> is_outlier lower upper x | _ \<Rightarrow> True)"

text \<open>What one round of the loop does to the variable \<open>df_out\<close>: nothing, a change of
  the frame it names (\<open>.loc\<close> assignment), or a new frame bound to it
  (\<open>df_out = df_out[~mask]\<close>).\<close>

datatype step = Keep | Mutate "row list" | MutateThenRaise "row list" error | Rebind "row list"

text \<open>A \<open>.loc\<close> assignment of a value that the dtype of the column cannot hold: pandas
  from 3.0 on raises \<open>TypeError\<close> (for an integer dtype every value but a whole number
  of its range; pandas 2 cast the column to float64 instead, from 2.1 on announcing the
  error with a \<open>FutureWarning\<close>). The check is on the value, whatever the rows selected.\<close>

definition can_hold_element :: "dtype \<Rightarrow> rat \<Rightarrow> bool" where
  "can_hold_element d x = (case d of Integer w \<Rightarrow> int_range w x | _ \<Rightarrow> True)"

text \<open>One round for the column \<open>col\<close>. The quantile of a series that holds a string raises
  \<open>TypeError\<close>. Under \<open>cap\<close> the two assignments run one after the other: the first
  can raise before anything is written, the second after the values below \<open>lower\<close> have
  been raised to it. \<open>mask\<close> is indexed by the rows whose value is not missing: when a row is
  missing from it, \<open>df_out[~mask]\<close> raises \<open>IndexingError\<close> (unalignable boolean
  series).\<close>

definition outlier_step :: "string \<Rightarrow> rat \<Rightarrow> string \<Rightarrow> string \<Rightarrow> table \<Rightarrow> error + step" where
  "outlier_step method threshold action col df_out =
     (case index_of col (col_names df_out) of
        None \<Rightarrow> Inr Keep
      | Some i \<Rightarrow>
          if method = ''iqr'' then
            if has_str i (rows df_out) then Inl TypeError
            else
              let series = dropna_num (column_at i (rows df_out))
              in case iqr_bounds threshold series of
                   None \<Rightarrow> Inr Keep
                 | Some (lower, upper) \<Rightarrow>
                     if 0 < length (filter (is_outlier lower upper) series) then
                       if action = ''cap'' then
                         if \<not> can_hold_element (snd (columns df_out ! i)) lower
                         then Inl TypeError
                         else if \<not> can_hold_element (snd (columns df_out ! i)) upper
                         then Inr (MutateThenRaise (cap_below i lower (rows df_out)) TypeError)
                         else Inr (Mutate (cap_above i upper (cap_below i lower (rows df_out))))
                       else if action = ''remove'' then
                         if NA \<in> set (column_at i (rows df_out)) then Inl IndexingError
                         else Inr (Rebind (filter (keeps i lower upper) (rows df_out)))
                       else Inr Keep
                     else Inr Keep
          else Inr Keep)"

text \<open>The value returned: the rounds applied, in the order of \<open>columns\<close>, to the copy of
  \<open>df\<close>.\<close>

fun outliers_loop :: "string \<Rightarrow> rat \<Rightarrow> string \<Rightarrow> string list \<Rightarrow> table \<Rightarrow> error + table" where
  "outliers_loop method threshold action [] df_out = Inr df_out"
| "outliers_loop method threshold action (col # cols) df_out =
     (case outlier_step method threshold action col df_out of
        Inl e \<Rightarrow> Inl e
      | Inr Keep \<Rightarrow> outliers_loop method threshold action cols df_out
      | Inr (Mutate rs) \<Rightarrow> outliers_loop method threshold action cols (df_out\<lparr>rows := rs\<rparr>)
      | Inr (MutateThenRaise rs e) \<Rightarrow> Inl e
      | Inr (Rebind rs) \<Rightarrow> outliers_loop method threshold action cols (df_out\<lparr>rows := rs\<rparr>))"

definition detect_and_handle_outliers ::
  "table \<Rightarrow> string list \<Rightarrow> string \<Rightarrow> rat \<Rightarrow> string \<Rightarrow> error + table" where
  "detect_and_handle_outliers df cols method threshold action =
     outliers_loop method threshold action cols df"

subsection \<open>\<open>encode_categorical\<close>\<close>

text \<open>\<open>LabelEncoder.fit_transform\<close>: the classes are the distinct values, the strings in
  sorted order and a missing value, if there is one, after them; every value is replaced
  by the position of its class.\<close>

definition fit_transform :: "string option list \<Rightarrow> string option list \<times> nat list" where
  "fit_transform ys =
     (let classes = map Some (sort (remdups [s. Some s \<leftarrow> ys])) @
                    (if None \<in> set ys then [None] else [])
      in (classes, map (\<lambda>y. the (index_of y classes)) ys))"

text \<open>The fitted encoders kept in the dictionary \<open>encoders\<close>: the classes of a label
  encoder, the categories per column of the one-hot encoder.\<close>

datatype encoder = LabelEncoder "string option list" | OneHotEncoder "cell list list"

type_synonym encoders = "string \<rightharpoonup> encoder"

definition label_step ::
  "printer \<Rightarrow> string \<Rightarrow> table \<times> encoders \<Rightarrow> table \<times> encoders" where
  "label_step fmt col st =
     (case st of (df_enc, encs) \<Rightarrow>
        (case index_of col (col_names df_enc) of
           None \<Rightarrow> (df_enc, encs)
         | Some i \<Rightarrow>
             let classes = fst (fit_transform (map (astype_str fmt) (column_at i (rows df_enc))))
             in (set_column col (Integer 64)
                   (\<lambda>r. Num (of_nat (the (index_of (astype_str fmt (r ! i)) classes)))) df_enc,
                 encs(col \<mapsto> LabelEncoder classes))))"

fun label_loop ::
  "printer \<Rightarrow> string list \<Rightarrow> table \<times> encoders \<Rightarrow> table \<times> encoders" where
  "label_loop fmt [] st = st"
| "label_loop fmt (col # cols) st = label_loop fmt cols (label_step fmt col st)"

text \<open>\<open>OneHotEncoder.fit\<close>: the categories of a column are its distinct values in sorted
  order, a missing value last; a column mixing strings and numbers raises \<open>TypeError\<close>.\<close>

definition ohe_categories :: "cell list \<Rightarrow> error + cell list" where
  "ohe_categories vs =
     (let ns = dropna_num vs; ss = dropna_str vs
      in if ns \<noteq> [] \<and> ss \<noteq> [] then Inl TypeError
         else Inr (map Num (sort (remdups ns)) @ map Str (sort (remdups ss)) @
                   (if NA \<in> set vs then [NA] else [])))"

fun collect :: "(error + 'a) list \<Rightarrow> error + 'a list" where
  "collect [] = Inr []"
| "collect (Inl e # ms) = Inl e"
| "collect (Inr x # ms) = (case collect ms of Inl e \<Rightarrow> Inl e | Inr xs \<Rightarrow> Inr (x # xs))"

text \<open>The name of a category in \<open>get_feature_names_out\<close> is its \<open>str\<close>, which is
  \<open>nan\<close> for the missing category.\<close>

definition category_str :: "printer \<Rightarrow> cell \<Rightarrow> string" where
  "category_str fmt k = (case k of NA \<Rightarrow> ''nan'' | Num x \<Rightarrow> num_str fmt x | Str s \<Rightarrow> s)"

text \<open>The one-hot stage: \<open>df_enc[cols_onehot]\<close> raises \<open>KeyError\<close> for an absent column
  and the encoder \<open>ValueError\<close> for a frame without rows; one indicator column per kept
  category, named \<open>column_category\<close>, replaces the encoded columns on the right.\<close>

definition onehot_stage ::
  "printer \<Rightarrow> bool \<Rightarrow> string list \<Rightarrow> table \<times> encoders \<Rightarrow> error + table \<times> encoders" where
  "onehot_stage fmt drop_first cols_onehot st =
     (case st of (df_enc, encs) \<Rightarrow>
        (case those (map (\<lambda>c. index_of c (col_names df_enc)) cols_onehot) of
           None \<Rightarrow> Inl KeyError
         | Some idxs \<Rightarrow>
             if rows df_enc = [] then Inl ValueError
             else
               (case collect (map (\<lambda>i. ohe_categories (column_at i (rows df_enc))) idxs) of
                  Inl e \<Rightarrow> Inl e
                | Inr cats \<Rightarrow>
                    let kept = map (\<lambda>cs. if drop_first then tl cs else cs) cats;
                        ohe_cols = concat (map2 (\<lambda>c ks. map (\<lambda>k. (c @ ''_'' @ category_str fmt k, Numeric)) ks)
                                             cols_onehot kept);
                        ohe_row = (\<lambda>r. concat (map2 (\<lambda>i ks. map (\<lambda>k. if r ! i = k then Num 1 else Num 0) ks)
                                                  idxs kept));
                        rest = filter (\<lambda>j. col_names df_enc ! j \<notin> set cols_onehot)
                                 [0..<length (columns df_enc)]
                    in Inr (\<lparr>columns = map (\<lambda>j. columns df_enc ! j) rest @ ohe_cols,
                             rows = map (\<lambda>r. map (\<lambda>j. r ! j) rest @ ohe_row r) (rows df_enc)\<rparr>,
                            encs(''onehot'' \<mapsto> OneHotEncoder cats)))))"

text \<open>\<open>if cols_label:\<close> and \<open>if cols_onehot:\<close> are false for \<open>None\<close> and for the empty
  list.\<close>

definition encode_categorical ::
  "printer \<Rightarrow> table \<Rightarrow> string list option \<Rightarrow> string list option \<Rightarrow> bool
     \<Rightarrow> error + table \<times> encoders" where
  "encode_categorical fmt df cols_onehot cols_label drop_first =
     (let st = (case cols_label of
                  None \<Rightarrow> (df, Map.empty)
                | Some cols \<Rightarrow> label_loop fmt cols (df, Map.empty))
      in case cols_onehot of
           None \<Rightarrow> Inr st
         | Some [] \<Rightarrow> Inr st
         | Some cols \<Rightarrow> onehot_stage fmt drop_first cols st)"

subsection \<open>\<open>load_data\<close>\<close>

text \<open>The file system maps a path to the text of the file; \<open>parse\<close> stands for the CSV
  parser of pandas with the dtypes of \<open>dtype_spec\<close>, which returns a frame or raises.
  \<open>pd.read_csv\<close> raises \<open>FileNotFoundError\<close> for a path that does not exist.\<close>

definition read_csv ::
  "(string \<Rightarrow> error + table) \<Rightarrow> (string \<rightharpoonup> string) \<Rightarrow> string \<Rightarrow> error + table" where
  "read_csv parse fs file_path =
     (case fs file_path of None \<Rightarrow> Inl FileNotFoundError | Some text \<Rightarrow> parse text)"

datatype log_record =
    LoadedShape nat nat
  | FileNotFound string
  | ErrorLoading error

text \<open>Both handlers log and re-raise the exception they caught.\<close>

definition load_data ::
  "(string \<Rightarrow> error + table) \<Rightarrow> (string \<rightharpoonup> string) \<Rightarrow> string
     \<Rightarrow> (error + table) \<times> log_record list" where
  "load_data parse fs file_path =
     (case read_csv parse fs file_path of
        Inr df \<Rightarrow> (Inr df, [LoadedShape (length (rows df)) (length (columns df))])
      | Inl FileNotFoundError \<Rightarrow> (Inl FileNotFoundError, [FileNotFound file_path])
      | Inl e \<Rightarrow> (Inl e, [ErrorLoading e]))"

subsection \<open>\<open>preprocess_pipeline\<close>\<close>

definition numeric_to_check :: "string list" where
  "numeric_to_check = [''Purchase Amount (USD)'', ''Previous Purchases'', ''Age'', ''Review Rating'']"

definition preprocess_pipeline ::
  "(string \<Rightarrow> error + table) \<Rightarrow> (string \<rightharpoonup> string) \<Rightarrow> printer \<Rightarrow> string \<Rightarrow> bool
     \<Rightarrow> string \<Rightarrow> bool \<Rightarrow> string list option \<Rightarrow> string list option \<Rightarrow> error + table" where
  "preprocess_pipeline parse fs fmt file_path handle_outliers outlier_method
       encode_categoricals onehot_cols label_cols =
     bind_err (fst (load_data parse fs file_path)) (\<lambda>df0.
     bind_err (clean_data df0) (\<lambda>df1.
     bind_err (if handle_outliers
               then detect_and_handle_outliers df1
                      (filter (\<lambda>c. c \<in> set (col_names df1)) numeric_to_check)
                      outlier_method (3 / 2) ''cap''
               else Inr df1) (\<lambda>df2.
     bind_err (feature_engineering fmt df2) (\<lambda>df3.
       if encode_categoricals
       then bind_err (encode_categorical fmt df3 onehot_cols label_cols True) (\<lambda>p. Inr (fst p))
       else Inr df3))))"

subsection \<open>The frames as objects: copies and mutation\<close>

text \<open>To say which frame a call changes, frames live in a store and a variable holds a
  reference into it. \<open>df.copy()\<close> allocates a new frame with the same contents; a
  \<open>.loc\<close> or column assignment changes the frame at its reference; boolean indexing
  allocates the filtered frame.\<close>

type_synonym store = "table list"

definition df_copy :: "store \<Rightarrow> nat \<Rightarrow> store \<times> nat" where
  "df_copy s df = (s @ [s ! df], length s)"

fun outliers_loop_st ::
  "string \<Rightarrow> rat \<Rightarrow> string \<Rightarrow> string list \<Rightarrow> store \<Rightarrow> nat \<Rightarrow> (error + nat) \<times> store" where
  "outliers_loop_st method threshold action [] s df_out = (Inr df_out, s)"
| "outliers_loop_st method threshold action (col # cols) s df_out =
     (case outlier_step method threshold action col (s ! df_out) of
        Inl e \<Rightarrow> (Inl e, s)
      | Inr Keep \<Rightarrow> outliers_loop_st method threshold action cols s df_out
      | Inr (Mutate rs) \<Rightarrow>
          outliers_loop_st method threshold action cols
            (s[df_out := (s ! df_out)\<lparr>rows := rs\<rparr>]) df_out
      | Inr (MutateThenRaise rs e) \<Rightarrow> (Inl e, s[df_out := (s ! df_out)\<lparr>rows := rs\<rparr>])
      | Inr (Rebind rs) \<Rightarrow>
          outliers_loop_st method threshold action cols
            (s @ [(s ! df_out)\<lparr>rows := rs\<rparr>]) (length s))"

definition detect_and_handle_outliers_st ::
  "store \<Rightarrow> nat \<Rightarrow> string list \<Rightarrow> string \<Rightarrow> rat \<Rightarrow> string \<Rightarrow> (error + nat) \<times> store" where
  "detect_and_handle_outliers_st s df cols method threshold action =
     (case df_copy s df of
        (s0, df_out) \<Rightarrow> outliers_loop_st method threshold action cols s0 df_out)"

definition feature_engineering_st ::
  "printer \<Rightarrow> store \<Rightarrow> nat \<Rightarrow> (error + nat) \<times> store" where
  "feature_engineering_st fmt s df0 =
     (case df_copy s df0 of
        (s0, df) \<Rightarrow>
          (case add_age_group (s0 ! df) of
             Inl e \<Rightarrow> (Inl e, s0)
           | Inr t1 \<Rightarrow>
               let s1 = s0[df := t1]
               in (case add_purchase_category (s1 ! df) of
                     Inl e \<Rightarrow> (Inl e, s1)
                   | Inr t2 \<Rightarrow>
                       let s2 = s1[df := t2];
                           s3 = s2[df := add_discount_or_promo (s2 ! df)]
                       in (case add_is_repeat_customer (s3 ! df) of
                             Inl e \<Rightarrow> (Inl e, s3)
                           | Inr t4 \<Rightarrow>
                               let s4 = s3[df := t4];
                                   s5 = s4[df := add_season_category fmt (s4 ! df)]
                               in (Inr df, s5)))))"

section \<open>Notions used in the statements\<close>

text \<open>Every row has one cell per column.\<close>

definition len_ok :: "table \<Rightarrow> bool" where
  "len_ok t = list_all (\<lambda>r. length r = length (columns t)) (rows t)"

text \<open>The bins of \<open>Age_Group\<close> as half-open intervals \<open>[lo, hi)\<close> with their labels.\<close>

definition age_bin_table :: "(rat \<times> rat \<times> string) list" where
  "age_bin_table =
     [(0, 18, ''<18''), (18, 25, ''18-24''), (25, 35, ''25-34''), (35, 45, ''35-44''),
      (45, 55, ''45-54''), (55, 65, ''55-64''), (65, 100, ''65+'')]"

definition in_age_bin :: "rat \<Rightarrow> string \<Rightarrow> bool" where
  "in_age_bin x l = list_ex (\<lambda>(lo, hi, l'). l' = l \<and> lo \<le> x \<and> x < hi) age_bin_table"

text \<open>A step leaves the column \<open>c\<close> alone: same position, same values.\<close>

definition keeps_column :: "string \<Rightarrow> table \<Rightarrow> table \<Rightarrow> bool" where
  "keeps_column c t t' =
     (index_of c (col_names t') = index_of c (col_names t) \<and>
      (\<forall>i. index_of c (col_names t) = Some i \<longrightarrow> column_at i (rows t') = column_at i (rows t)))"

text \<open>A column that holds no string, and a column declared numeric (both hold for an
  absent column).\<close>

definition no_str :: "table \<Rightarrow> string \<Rightarrow> bool" where
  "no_str t c = (case index_of c (col_names t) of None \<Rightarrow> True | Some i \<Rightarrow> \<not> has_str i (rows t))"

definition numeric_column :: "table \<Rightarrow> string \<Rightarrow> bool" where
  "numeric_column t c =
     (case index_of c (col_names t) of None \<Rightarrow> True | Some i \<Rightarrow> dtype_at t i \<noteq> Categorical)"

text \<open>Example inputs. The printer of the examples is that of pandas 3: a missing value
  stays missing under \<open>astype(str)\<close>. The only numbers the examples print are the
  integer codes of the label encoder, which Python prints in decimal.\<close>

fun show_nat :: "nat \<Rightarrow> string" where
  "show_nat n =
     (if n < 10 then [''0123456789'' ! n]
      else show_nat (n div 10) @ [''0123456789'' ! (n mod 10)])"

definition fmt_digits :: printer where
  "fmt_digits = \<lparr>num_str = (\<lambda>x. show_nat (nat \<lfloor>x\<rfloor>)), na_str = None\<rparr>"

definition ages_example :: table where
  "ages_example =
     \<lparr>columns = [(''Age'', Integer 8)],
      rows = [[Num 17], [Num 18], [Num 40], [Num 70], [Num 100]]\<rparr>"

text \<open>A file system with one file whose Age field \<open>abc\<close> is no \<open>int8\<close>:
  \<open>pd.read_csv\<close> with the dtypes of \<open>dtype_spec\<close> raises \<open>ValueError\<close> (invalid
  literal for int) on this text, which is what the parser of the example returns for
  it; the example consults the parser on no other text.\<close>

definition bad_age_text :: string where
  "bad_age_text = ''Customer ID,Age'' @ [CHR 0x0A] @ ''1,abc'' @ [CHR 0x0A]"

definition files_example :: "string \<rightharpoonup> string" where
  "files_example = [''shopping_behavior.csv'' \<mapsto> bad_age_text]"

definition parse_bad_age :: "string \<Rightarrow> error + table" where
  "parse_bad_age text =
     (if text = bad_age_text then Inl ValueError else Inr \<lparr>columns = [], rows = []\<rparr>)"

text \<open>Purchase amounts with one value, 500, above the upper fence \<open>Q3 + 1.5 IQR = 100\<close>,
  and the same frame with that value capped.\<close>

definition amounts_example :: table where
  "amounts_example =
     \<lparr>columns = [(''Purchase Amount (USD)'', Numeric), (''Gender'', Categorical)],
      rows = [[Num 40, Str ''Male''], [Num 50, Str ''Female''], [Num 60, Str ''Male''],
              [Num 70, Str ''Female''], [Num 500, Str ''Male'']]\<rparr>"

definition amounts_capped :: table where
  "amounts_capped =
     \<lparr>columns = [(''Purchase Amount (USD)'', Numeric), (''Gender'', Categorical)],
      rows = [[Num 40, Str ''Male''], [Num 50, Str ''Female''], [Num 60, Str ''Male''],
              [Num 70, Str ''Female''], [Num 100, Str ''Male'']]\<rparr>"

text \<open>Purchase amounts whose fences are not whole numbers (\<open>Q1 = 50\<close>, \<open>Q3 = 75\<close>,
  fences 12.5 and 112.5), once in an \<open>int16\<close> column, the dtype \<open>load_data\<close> gives
  the purchase amount, and once in a \<open>float64\<close> column; the latter frame capped.\<close>

definition amounts_int16_example :: table where
  "amounts_int16_example =
     \<lparr>columns = [(''Purchase Amount (USD)'', Integer 16), (''Gender'', Categorical)],
      rows = [[Num 40, Str ''Male''], [Num 50, Str ''Female''], [Num 60, Str ''Male''],
              [Num 75, Str ''Female''], [Num 500, Str ''Male'']]\<rparr>"

definition amounts_float64_example :: table where
  "amounts_float64_example =
     \<lparr>columns = [(''Purchase Amount (USD)'', Numeric), (''Gender'', Categorical)],
      rows = [[Num 40, Str ''Male''], [Num 50, Str ''Female''], [Num 60, Str ''Male''],
              [Num 75, Str ''Female''], [Num 500, Str ''Male'']]\<rparr>"

definition amounts_float64_capped :: table where
  "amounts_float64_capped =
     \<lparr>columns = [(''Purchase Amount (USD)'', Numeric), (''Gender'', Categorical)],
      rows = [[Num 40, Str ''Male''], [Num 50, Str ''Female''], [Num 60, Str ''Male''],
              [Num 75, Str ''Female''], [Num (225 / 2), Str ''Male'']]\<rparr>"

text \<open>All rows have \<open>n\<close> cells.\<close>

definition rows_ok :: "nat \<Rightarrow> row list \<Rightarrow> bool" where
  "rows_ok n rs = list_all (\<lambda>r. length r = n) rs"

text \<open>The purchase amounts after the row of the outlier is removed, and ratings with an
  outlier and a missing value.\<close>

definition amounts_removed :: table where
  "amounts_removed =
     \<lparr>columns = [(''Purchase Amount (USD)'', Numeric), (''Gender'', Categorical)],
      rows = [[Num 40, Str ''Male''], [Num 50, Str ''Female''], [Num 60, Str ''Male''],
              [Num 70, Str ''Female'']]\<rparr>"

definition ratings_example :: table where
  "ratings_example =
     \<lparr>columns = [(''Review Rating'', Numeric)],
      rows = [[Num 1], [Num 2], [Num 3], [Num 4], [Num 100], [NA]]\<rparr>"

text \<open>Imputation as the specification words it: a missing value of a numeric column
  becomes the median of the non-missing values of the column, a missing value of a
  categorical column its mode; a column without any value is left as it is.\<close>

definition fill_cell :: "cell \<Rightarrow> cell \<Rightarrow> cell" where
  "fill_cell v c = (if c = NA then v else c)"

definition impute :: "dtype \<Rightarrow> cell list \<Rightarrow> cell list" where
  "impute d vs =
     (case d of
        Categorical \<Rightarrow> (case mode (dropna_str vs) of
                          None \<Rightarrow> vs
                        | Some m \<Rightarrow> map (fill_cell (Str m)) vs)
      | _ \<Rightarrow> (case median (dropna_num vs) of
                None \<Rightarrow> vs
              | Some m \<Rightarrow> map (fill_cell (Num m)) vs))"

text \<open>A column is entirely missing when it has values and all of them are missing.\<close>

definition entirely_missing :: "cell list \<Rightarrow> bool" where
  "entirely_missing vs = (vs \<noteq> [] \<and> list_all (\<lambda>v. v = NA) vs)"

text \<open>The mode of a column is asked for and does not exist; the column filled with its
  mode.\<close>

definition mode_fails :: "cell list \<Rightarrow> bool" where
  "mode_fails vs = (NA \<in> set vs \<and> dropna_str vs = [])"

definition mode_fill :: "cell list \<Rightarrow> cell list" where
  "mode_fill vs = (case mode (dropna_str vs) of None \<Rightarrow> vs | Some m \<Rightarrow> map (fill_cell (Str m)) vs)"

text \<open>Customers with a duplicate row and missing values, and the frame after cleaning; a
  frame whose \<open>Gender\<close> column is entirely missing; a frame in which filling makes two rows
  equal.\<close>

definition customers_example :: table where
  "customers_example =
     \<lparr>columns = [(''Age'', Numeric), (''Gender'', Categorical)],
      rows = [[Num 30, Str ''Male''], [NA, Str ''Female''], [Num 50, NA],
              [Num 30, Str ''Male''], [Num 40, Str ''Male'']]\<rparr>"

definition customers_cleaned :: table where
  "customers_cleaned =
     \<lparr>columns = [(''Age'', Numeric), (''Gender'', Categorical)],
      rows = [[Num 30, Str ''Male''], [Num 40, Str ''Female''], [Num 50, Str ''Male''],
              [Num 40, Str ''Male'']]\<rparr>"

definition no_gender_example :: table where
  "no_gender_example =
     \<lparr>columns = [(''Age'', Numeric), (''Gender'', Categorical)],
      rows = [[Num 30, NA], [Num 40, NA]]\<rparr>"

definition pair_example :: table where
  "pair_example =
     \<lparr>columns = [(''Age'', Numeric), (''Previous Purchases'', Numeric)],
      rows = [[Num 30, NA], [Num 30, Num 5]]\<rparr>"

definition pair_cleaned :: table where
  "pair_cleaned =
     \<lparr>columns = [(''Age'', Numeric), (''Previous Purchases'', Numeric)],
      rows = [[Num 30, Num 5], [Num 30, Num 5]]\<rparr>"

definition pair_cleaned_twice :: table where
  "pair_cleaned_twice =
     \<lparr>columns = [(''Age'', Numeric), (''Previous Purchases'', Numeric)],
      rows = [[Num 30, Num 5]]\<rparr>"

text \<open>Label encoding as the specification words it. The values of the column are cast
  to strings: a string is itself, a number is printed, and a missing value is what the
  library makes of it (the string \<open>nan\<close> before pandas 3.0, still missing from 3.0 on).
  The classes are the distinct cast values in sorted order, the strings in increasing
  order and the missing value after every string; the code of a value is the position of
  its class.\<close>

definition code_of :: "'a list \<Rightarrow> 'a \<Rightarrow> nat" where
  "code_of classes y = the (index_of y classes)"

definition label_strings :: "printer \<Rightarrow> table \<Rightarrow> nat \<Rightarrow> string option list" where
  "label_strings fmt t i =
     map (\<lambda>v. case v of Str s \<Rightarrow> Some s | Num x \<Rightarrow> Some (num_str fmt x) | NA \<Rightarrow> na_str fmt)
       (column_at i (rows t))"

definition class_less :: "string option \<Rightarrow> string option \<Rightarrow> bool" where
  "class_less a b =
     (case a of None \<Rightarrow> False
      | Some x \<Rightarrow> (case b of None \<Rightarrow> True | Some y \<Rightarrow> x < y))"

definition label_classes :: "string option list \<Rightarrow> string option list" where
  "label_classes ys =
     map Some (sort (remdups [s. Some s \<leftarrow> ys])) @ (if None \<in> set ys then [None] else [])"

definition encode_col :: "printer \<Rightarrow> cell list \<Rightarrow> cell list" where
  "encode_col fmt vs =
     (let ys = map (\<lambda>v. case v of Str s \<Rightarrow> Some s | Num x \<Rightarrow> Some (num_str fmt x)
                               | NA \<Rightarrow> na_str fmt) vs
      in map (\<lambda>y. Num (of_nat (code_of (label_classes ys) y))) ys)"

text \<open>A column of sizes with a missing value.\<close>

definition sizes_example :: table where
  "sizes_example =
     \<lparr>columns = [(''Size'', Categorical)],
      rows = [[Str ''b''], [NA], [Str ''a''], [Str ''z'']]\<rparr>"

text \<open>Eleven sizes, enough for the codes to reach two digits.\<close>

definition letters_example :: table where
  "letters_example =
     \<lparr>columns = [(''Size'', Categorical)],
      rows = [[Str ''a''], [Str ''b''], [Str ''c''], [Str ''d''], [Str ''e''], [Str ''f''],
              [Str ''g''], [Str ''h''], [Str ''i''], [Str ''j''], [Str ''k'']]\<rparr>"

section \<open>Basic facts about columns\<close>

lemma index_of_None_iff: "index_of x xs = None \<longleftrightarrow> x \<notin> set xs"
  by (induction xs) auto

lemma index_of_notin [simp]: "x \<notin> set xs \<Longrightarrow> index_of x xs = None"
  by (simp add: index_of_None_iff)

lemma index_of_Some: "index_of x xs = Some i \<Longrightarrow> i < length xs \<and> xs ! i = x"
  by (induction xs arbitrary: i) (auto split: if_splits)

lemma index_of_append_in: "x \<in> set xs \<Longrightarrow> index_of x (xs @ ys) = index_of x xs"
  by (induction xs) auto

lemma index_of_append_new:
  "x \<notin> set xs \<Longrightarrow> index_of x (xs @ [y]) = (if x = y then Some (length xs) else None)"
  by (induction xs) auto

lemma col_names_make [simp]: "col_names \<lparr>columns = cs, rows = rs\<rparr> = map fst cs"
  by (simp add: col_names_def)

lemma length_col_names [simp]: "length (col_names t) = length (columns t)"
  by (simp add: col_names_def)

lemma wf_table_len_ok: "wf_table t \<Longrightarrow> len_ok t"
  by (auto simp: wf_table_def len_ok_def row_ok_def list_all_iff)

lemma col_names_set_column:
  "col_names (set_column n d f t) =
     (if n \<in> set (col_names t) then col_names t else col_names t @ [n])"
proof (cases "index_of n (col_names t)")
  case None
  then have "n \<notin> set (col_names t)" by (simp add: index_of_None_iff)
  then show ?thesis using None by (simp add: set_column_def) (simp add: col_names_def)
next
  case (Some i)
  then have i: "i < length (col_names t)" "col_names t ! i = n"
    using index_of_Some by fastforce+
  have "n \<in> set (col_names t)"
    using Some index_of_None_iff[of n "col_names t"] by auto
  moreover have "map fst ((columns t)[i := (n, d)]) = (col_names t)[i := n]"
    by (simp add: col_names_def map_update)
  moreover have "(col_names t)[i := n] = col_names t"
    using i by (metis list_update_id)
  ultimately show ?thesis using Some i by (simp add: set_column_def)
qed

lemma length_rows_set_column [simp]: "length (rows (set_column n d f t)) = length (rows t)"
  by (simp add: set_column_def split: option.splits)

lemma len_ok_set_column: "len_ok t \<Longrightarrow> len_ok (set_column n d f t)"
  by (auto simp: len_ok_def set_column_def list_all_iff split: option.splits)

lemma index_of_set_column_other:
  "c \<noteq> n \<Longrightarrow> index_of c (col_names (set_column n d f t)) = index_of c (col_names t)"
  by (cases "c \<in> set (col_names t)")
     (simp_all add: col_names_set_column index_of_append_in index_of_append_new index_of_None_iff)

lemma column_at_set_column_other:
  assumes "len_ok t" "index_of c (col_names t) = Some i" "c \<noteq> n"
  shows "column_at i (rows (set_column n d f t)) = column_at i (rows t)"
proof (cases "index_of n (col_names t)")
  case None
  have "i < length (columns t)" using assms(2) index_of_Some[of c "col_names t" i]
    by simp
  then show ?thesis using None assms(1)
    by (auto simp: set_column_def column_at_def len_ok_def list_all_iff nth_append)
next
  case (Some j)
  have "col_names t ! j = n" using Some index_of_Some by fastforce
  moreover have "col_names t ! i = c" using assms(2) index_of_Some by fastforce
  ultimately have "j \<noteq> i" using assms(3) by auto
  then show ?thesis using Some
    by (simp add: set_column_def column_at_def)
qed

lemma column_at_set_column_same:
  assumes "len_ok t" "index_of n (col_names (set_column n d f t)) = Some j"
  shows "column_at j (rows (set_column n d f t)) = map f (rows t)"
proof (cases "index_of n (col_names t)")
  case None
  then have "n \<notin> set (col_names t)" by (simp add: index_of_None_iff)
  then have "j = length (columns t)" using assms(2)
    by (simp add: col_names_set_column index_of_append_new)
  then show ?thesis using None assms(1)
    by (auto simp: set_column_def column_at_def len_ok_def list_all_iff nth_append)
next
  case (Some k)
  then have "n \<in> set (col_names t)" using index_of_None_iff[of n "col_names t"] by auto
  then have "j = k" using assms(2) Some by (simp add: col_names_set_column)
  moreover have "k < length (columns t)" using Some index_of_Some[of n "col_names t" k]
    by simp
  ultimately show ?thesis using Some assms(1)
    by (auto simp: set_column_def column_at_def len_ok_def list_all_iff)
qed

lemma index_of_in: "x \<in> set xs \<Longrightarrow> \<exists>i. index_of x xs = Some i"
  using index_of_None_iff[of x xs] by (cases "index_of x xs") auto

section \<open>Facts about the outlier handler\<close>

subsection \<open>Capping a column\<close>

lemma len_ok_rows_ok: "len_ok t = rows_ok (length (columns t)) (rows t)"
  by (simp add: len_ok_def rows_ok_def)

lemma column_at_cap_below_same:
  assumes "rows_ok n rs" "i < n"
  shows "column_at i (cap_below i lower rs) =
         map (\<lambda>v. case v of Num x \<Rightarrow> if x < lower then Num lower else v | _ \<Rightarrow> v) (column_at i rs)"
  using assms by (auto simp: column_at_def cap_below_def rows_ok_def list_all_iff split: cell.splits)

lemma column_at_cap_above_same:
  assumes "rows_ok n rs" "i < n"
  shows "column_at i (cap_above i upper rs) =
         map (\<lambda>v. case v of Num x \<Rightarrow> if upper < x then Num upper else v | _ \<Rightarrow> v) (column_at i rs)"
  using assms by (auto simp: column_at_def cap_above_def rows_ok_def list_all_iff split: cell.splits)

lemma column_at_cap_below_other: "j \<noteq> i \<Longrightarrow> column_at j (cap_below i lower rs) = column_at j rs"
  by (auto simp: column_at_def cap_below_def split: cell.splits)

lemma column_at_cap_above_other: "j \<noteq> i \<Longrightarrow> column_at j (cap_above i upper rs) = column_at j rs"
  by (auto simp: column_at_def cap_above_def split: cell.splits)

lemma rows_ok_cap_below: "rows_ok n rs \<Longrightarrow> rows_ok n (cap_below i lower rs)"
  by (auto simp: rows_ok_def cap_below_def list_all_iff split: cell.splits)

lemma rows_ok_cap_above: "rows_ok n rs \<Longrightarrow> rows_ok n (cap_above i upper rs)"
  by (auto simp: rows_ok_def cap_above_def list_all_iff split: cell.splits)

lemma length_cap [simp]:
  "length (cap_below i lower rs) = length rs" "length (cap_above i upper rs) = length rs"
  by (simp_all add: cap_below_def cap_above_def)

lemma dropna_num_set: "x \<in> set (dropna_num vs) \<longleftrightarrow> Num x \<in> set vs"
  by (induction vs rule: dropna_num.induct) auto

subsection \<open>One round and the loop\<close>

lemma col_names_rows_update [simp]: "col_names (t\<lparr>rows := rs\<rparr>) = col_names t"
  by (simp add: col_names_def)

lemma outlier_step_absent:
  "c \<notin> set (col_names t) \<Longrightarrow> outlier_step m k a c t = Inr Keep"
  by (simp add: outlier_step_def)

lemma outlier_step_Mutate:
  assumes "outlier_step m k a c t = Inr (Mutate rs)"
  shows "a = ''cap'' \<and> (\<exists>i lower upper. index_of c (col_names t) = Some i \<and>
           iqr_bounds k (dropna_num (column_at i (rows t))) = Some (lower, upper) \<and>
           rs = cap_above i upper (cap_below i lower (rows t)))"
  using assms
  by (auto simp: outlier_step_def Let_def split: option.splits if_splits prod.splits)

lemma outlier_step_Rebind:
  assumes "outlier_step m k a c t = Inr (Rebind rs)"
  shows "a = ''remove'' \<and> (\<exists>i lower upper. index_of c (col_names t) = Some i \<and>
           iqr_bounds k (dropna_num (column_at i (rows t))) = Some (lower, upper) \<and>
           NA \<notin> set (column_at i (rows t)) \<and>
           rs = filter (keeps i lower upper) (rows t))"
  using assms
  by (auto simp: outlier_step_def Let_def split: option.splits if_splits prod.splits)

lemma outliers_loop_skips_absent:
  "outliers_loop m k a cols t =
   outliers_loop m k a (filter (\<lambda>c. c \<in> set (col_names t)) cols) t"
proof (induction cols arbitrary: t)
  case Nil
  show ?case by simp
next
  case (Cons c cols)
  show ?case
  proof (cases "c \<in> set (col_names t)")
    case False
    then show ?thesis using Cons.IH[of t] by (simp add: outlier_step_absent)
  next
    case True
    show ?thesis
    proof (cases "outlier_step m k a c t")
      case (Inl e)
      then show ?thesis using True by simp
    next
      case (Inr st)
      show ?thesis
      proof (cases st)
        case Keep
        then show ?thesis using True Inr Cons.IH[of t] by simp
      next
        case (Mutate rs)
        then show ?thesis using True Inr Cons.IH[of "t\<lparr>rows := rs\<rparr>"] by simp
      next
        case (MutateThenRaise rs e)
        then show ?thesis using True Inr by simp
      next
        case (Rebind rs)
        then show ?thesis using True Inr Cons.IH[of "t\<lparr>rows := rs\<rparr>"] by simp
      qed
    qed
  qed
qed

lemma outliers_loop_frame:
  assumes "outliers_loop m k a cols t = Inr t'"
  shows "columns t' = columns t \<and>
         (a = ''remove'' \<longrightarrow> subseq (rows t') (rows t)) \<and>
         (a \<noteq> ''remove'' \<longrightarrow> length (rows t') = length (rows t) \<and>
            (\<forall>j<length (columns t). col_names t ! j \<notin> set cols \<longrightarrow>
               column_at j (rows t') = column_at j (rows t)))"
  using assms
proof (induction cols arbitrary: t)
  case Nil
  then show ?case by simp
next
  case (Cons c cols)
  show ?case
  proof (cases "outlier_step m k a c t")
    case (Inl e)
    then show ?thesis using Cons.prems by simp
  next
    case (Inr st)
    show ?thesis
    proof (cases st)
      case Keep
      then have "outliers_loop m k a cols t = Inr t'" using Inr Cons.prems by simp
      from Cons.IH[OF this] show ?thesis by auto
    next
      case (Mutate rs)
      define t1 where "t1 = t\<lparr>rows := rs\<rparr>"
      have run: "outliers_loop m k a cols t1 = Inr t'"
        using Inr Mutate Cons.prems by (simp add: t1_def)
      obtain i lower upper where st: "a = ''cap''" "index_of c (col_names t) = Some i"
          "rs = cap_above i upper (cap_below i lower (rows t))"
        using outlier_step_Mutate[of m k a c t rs] Inr Mutate by auto
      have ci: "col_names t ! i = c" using st(2) index_of_Some by fastforce
      have len: "length (rows t1) = length (rows t)" by (simp add: t1_def st(3))
      have other: "column_at j (rows t1) = column_at j (rows t)" if "j \<noteq> i" for j
        using that by (simp add: t1_def st(3) column_at_cap_above_other column_at_cap_below_other)
      have ih: "columns t' = columns t1 \<and>
         (a \<noteq> ''remove'' \<longrightarrow> length (rows t') = length (rows t1) \<and>
            (\<forall>j<length (columns t1). col_names t1 ! j \<notin> set cols \<longrightarrow>
               column_at j (rows t') = column_at j (rows t1)))"
        using Cons.IH[OF run] by blast
      have c1: "columns t1 = columns t" "col_names t1 = col_names t" by (simp_all add: t1_def)
      have "column_at j (rows t') = column_at j (rows t)"
        if "j < length (columns t)" "col_names t ! j \<notin> set (c # cols)" for j
      proof -
        have "j \<noteq> i" using that(2) ci by auto
        then show ?thesis using ih st(1) c1 that other by auto
      qed
      then show ?thesis using ih st(1) c1 len by auto
    next
      case (MutateThenRaise rs e)
      then show ?thesis using Inr Cons.prems by simp
    next
      case (Rebind rs)
      define t1 where "t1 = t\<lparr>rows := rs\<rparr>"
      have run: "outliers_loop m k a cols t1 = Inr t'"
        using Inr Rebind Cons.prems by (simp add: t1_def)
      obtain i lower upper where st: "a = ''remove''" "rs = filter (keeps i lower upper) (rows t)"
        using outlier_step_Rebind[of m k a c t rs] Inr Rebind by auto
      have "subseq (rows t1) (rows t)" by (simp add: t1_def st(2))
      moreover have "columns t' = columns t1" "subseq (rows t') (rows t1)"
        using Cons.IH[OF run] st(1) by auto
      ultimately show ?thesis using st(1) by (auto simp: t1_def intro: subseq_order.trans)
    qed
  qed
qed

section \<open>Facts about the cleaner\<close>

subsection \<open>Duplicates and filling\<close>

lemma set_drop_duplicates [simp]: "set (drop_duplicates rs) = set rs"
  by (simp add: drop_duplicates_def)

lemma distinct_drop_duplicates [simp]: "distinct (drop_duplicates rs)"
  by (simp add: drop_duplicates_def)

lemma drop_duplicates_distinct: "distinct rs \<Longrightarrow> drop_duplicates rs = rs"
  by (simp add: drop_duplicates_def distinct_remdups_id)

lemma rows_ok_drop_duplicates: "rows_ok n rs \<Longrightarrow> rows_ok n (drop_duplicates rs)"
  by (simp add: rows_ok_def list_all_iff)

lemma set_column_at: "set (column_at i rs) = (\<lambda>r. r ! i) ` set rs"
  by (simp add: column_at_def)

lemma set_column_at_drop_duplicates:
  "set (column_at i (drop_duplicates rs)) = set (column_at i rs)"
  by (simp add: set_column_at)

lemma column_at_fillna_rows:
  assumes "rows_ok n rs" "length fills = n" "i < n"
  shows "column_at i (fillna_rows fills rs) = map (fill_cell (fills ! i)) (column_at i rs)"
  using assms
  by (auto simp: column_at_def fillna_rows_def rows_ok_def list_all_iff fill_cell_def)

lemma rows_ok_fillna_rows:
  assumes "rows_ok n rs" "length fills = n"
  shows "rows_ok n (fillna_rows fills rs)"
  using assms by (auto simp: fillna_rows_def rows_ok_def list_all_iff)

lemma length_fillna_rows [simp]: "length (fillna_rows fills rs) = length rs"
  by (simp add: fillna_rows_def)

lemma column_at_fillna_column_same:
  assumes "rows_ok n rs" "i < n"
  shows "column_at i (fillna_column i v rs) = map (fill_cell v) (column_at i rs)"
  using assms
  by (auto simp: column_at_def fillna_column_def rows_ok_def list_all_iff fill_cell_def)

lemma column_at_fillna_column_other:
  "j \<noteq> i \<Longrightarrow> column_at j (fillna_column i v rs) = column_at j rs"
  by (auto simp: column_at_def fillna_column_def)

lemma rows_ok_fillna_column: "rows_ok n rs \<Longrightarrow> rows_ok n (fillna_column i v rs)"
  by (auto simp: fillna_column_def rows_ok_def list_all_iff)

lemma length_fillna_column [simp]: "length (fillna_column i v rs) = length rs"
  by (simp add: fillna_column_def)

lemma median_None_iff: "median xs = None \<longleftrightarrow> xs = []"
  by (simp add: median_def Let_def)

lemma mode_None_iff: "mode xs = None \<longleftrightarrow> xs = []"
proof -
  have "sort (remdups xs) = [] \<longleftrightarrow> xs = []"
    by (metis length_0_conv length_sort remdups_eq_nil_iff)
  then show ?thesis by (auto simp: mode_def split: list.splits)
qed

lemma map_fill_no_NA: "NA \<notin> set vs \<Longrightarrow> map (fill_cell v) vs = vs"
  by (induction vs) (auto simp: fill_cell_def)

lemma fill_removes_NA: "v \<noteq> NA \<Longrightarrow> NA \<notin> set (map (fill_cell v) vs)"
  by (auto simp: fill_cell_def)

lemma dropna_str_set: "s \<in> set (dropna_str vs) \<longleftrightarrow> Str s \<in> set vs"
  by (induction vs rule: dropna_str.induct) auto


lemma fillna_rows_no_NA:
  assumes "rows_ok n rs" "length fills = n" "\<forall>r\<in>set rs. NA \<notin> set r"
  shows "fillna_rows fills rs = rs"
proof -
  have "map2 (\<lambda>f c. if c = NA then f else c) fills r = r" if "r \<in> set rs" for r
  proof (rule nth_equalityI)
    have l: "length r = n" using assms(1) that by (simp add: rows_ok_def list_all_iff)
    then show "length (map2 (\<lambda>f c. if c = NA then f else c) fills r) = length r"
      using assms(2) by simp
    fix i assume "i < length (map2 (\<lambda>f c. if c = NA then f else c) fills r)"
    then have i: "i < length r" "i < length fills" by simp_all
    then have "r ! i \<noteq> NA" using assms(3) that nth_mem by metis
    then show "map2 (\<lambda>f c. if c = NA then f else c) fills r ! i = r ! i" using i by simp
  qed
  then show ?thesis by (simp add: fillna_rows_def map_idI)
qed

lemma fill_modes_no_NA:
  "\<forall>i\<in>set is. NA \<notin> set (column_at i rs) \<Longrightarrow> fill_modes is rs = Inr rs"
  by (induction "is") simp_all

subsection \<open>The mode is a most frequent value\<close>

lemma most_frequent_props:
  "most_frequent xs b ys \<in> set (b # ys) \<and>
   (\<forall>y\<in>set (b # ys). count_list xs y \<le> count_list xs (most_frequent xs b ys))"
proof (induction ys arbitrary: b)
  case Nil
  show ?case by simp
next
  case (Cons y ys)
  let ?b = "if count_list xs b < count_list xs y then y else b"
  have ih: "most_frequent xs ?b ys \<in> set (?b # ys)"
    "\<forall>z\<in>set (?b # ys). count_list xs z \<le> count_list xs (most_frequent xs ?b ys)"
    using Cons.IH[of ?b] by blast+
  have "count_list xs ?b \<le> count_list xs (most_frequent xs ?b ys)" using ih(2) by simp
  then have "count_list xs b \<le> count_list xs (most_frequent xs ?b ys)"
    "count_list xs y \<le> count_list xs (most_frequent xs ?b ys)"
    by (auto split: if_splits)
  then show ?case using ih by (auto split: if_splits)
qed

lemma mode_most_frequent:
  assumes "mode xs = Some m"
  shows "m \<in> set xs \<and> (\<forall>x. count_list xs x \<le> count_list xs m)"
proof -
  obtain y ys where s: "sort (remdups xs) = y # ys" "m = most_frequent xs y ys"
    using assms by (auto simp: mode_def split: list.splits)
  have set: "set (y # ys) = set xs" using s(1) by (metis set_remdups set_sort)
  have p: "m \<in> set (y # ys)" "\<forall>z\<in>set (y # ys). count_list xs z \<le> count_list xs m"
    using most_frequent_props[of xs y ys] s(2) by blast+
  have "count_list xs x \<le> count_list xs m" for x
  proof (cases "x \<in> set xs")
    case True
    then show ?thesis using p(2) set by blast
  next
    case False
    then show ?thesis by (simp add: count_list_0_iff)
  qed
  then show ?thesis using p(1) set by blast
qed


subsection \<open>The loop over the categorical columns\<close>

lemma mode_fill_no_NA: "NA \<notin> set vs \<Longrightarrow> mode_fill vs = vs"
  by (simp add: mode_fill_def map_fill_no_NA split: option.splits)

lemma fill_modes_result:
  assumes "rows_ok n rs" "distinct is" "\<forall>i\<in>set is. i < n"
  shows "(fill_modes is rs = Inl KeyError \<and> (\<exists>i\<in>set is. mode_fails (column_at i rs))) \<or>
         (\<exists>rs'. fill_modes is rs = Inr rs' \<and> rows_ok n rs' \<and> length rs' = length rs \<and>
            (\<forall>i\<in>set is. \<not> mode_fails (column_at i rs)) \<and>
            (\<forall>i\<in>set is. column_at i rs' = mode_fill (column_at i rs)) \<and>
            (\<forall>j. j \<notin> set is \<longrightarrow> column_at j rs' = column_at j rs))"
  using assms
proof (induction "is" arbitrary: rs)
  case Nil
  then show ?case by simp
next
  case (Cons i "is")
  have i: "i < n" "i \<notin> set is" "distinct is" "\<forall>j\<in>set is. j < n"
    using Cons.prems by simp_all
  show ?case
  proof (cases "NA \<in> set (column_at i rs)")
    case False
    have step: "fill_modes (i # is) rs = fill_modes is rs" using False by simp
    have nf: "\<not> mode_fails (column_at i rs)" using False by (simp add: mode_fails_def)
    have keep: "mode_fill (column_at i rs) = column_at i rs" using False by (rule mode_fill_no_NA)
    from Cons.IH[OF Cons.prems(1) i(3,4)] show ?thesis
    proof
      assume "fill_modes is rs = Inl KeyError \<and> (\<exists>i\<in>set is. mode_fails (column_at i rs))"
      then show ?thesis using step by auto
    next
      assume "\<exists>rs'. fill_modes is rs = Inr rs' \<and> rows_ok n rs' \<and> length rs' = length rs \<and>
            (\<forall>i\<in>set is. \<not> mode_fails (column_at i rs)) \<and>
            (\<forall>i\<in>set is. column_at i rs' = mode_fill (column_at i rs)) \<and>
            (\<forall>j. j \<notin> set is \<longrightarrow> column_at j rs' = column_at j rs)"
      then obtain rs' where r: "fill_modes is rs = Inr rs'" "rows_ok n rs'" "length rs' = length rs"
          "\<forall>i\<in>set is. \<not> mode_fails (column_at i rs)"
          "\<forall>i\<in>set is. column_at i rs' = mode_fill (column_at i rs)"
          "\<forall>j. j \<notin> set is \<longrightarrow> column_at j rs' = column_at j rs"
        by blast
      have "column_at i rs' = mode_fill (column_at i rs)" using r(6) i(2) keep by simp
      then have "\<forall>j\<in>set (i # is). column_at j rs' = mode_fill (column_at j rs)" using r(5) by simp
      moreover have "\<forall>j\<in>set (i # is). \<not> mode_fails (column_at j rs)" using r(4) nf by simp
      moreover have "\<forall>j. j \<notin> set (i # is) \<longrightarrow> column_at j rs' = column_at j rs" using r(6) by simp
      moreover have "fill_modes (i # is) rs = Inr rs'" using step r(1) by simp
      moreover note r(2,3)
      ultimately show ?thesis by (intro disjI2 exI[of _ rs'] conjI) assumption+
    qed
  next
    case True
    show ?thesis
    proof (cases "mode (dropna_str (column_at i rs))")
      case None
      then have "fill_modes (i # is) rs = Inl KeyError" using True by simp
      moreover have "mode_fails (column_at i rs)"
        using True None by (simp add: mode_fails_def mode_None_iff)
      ultimately show ?thesis by auto
    next
      case (Some m)
      define rs1 where "rs1 = fillna_column i (Str m) rs"
      have step: "fill_modes (i # is) rs = fill_modes is rs1" using True Some by (simp add: rs1_def)
      have ok1: "rows_ok n rs1" unfolding rs1_def by (rule rows_ok_fillna_column[OF Cons.prems(1)])
      have len1: "length rs1 = length rs" by (simp add: rs1_def)
      have same: "column_at i rs1 = mode_fill (column_at i rs)"
        using column_at_fillna_column_same[OF Cons.prems(1) i(1)] Some
        by (simp add: rs1_def mode_fill_def)
      have other: "column_at j rs1 = column_at j rs" if "j \<noteq> i" for j
        using that by (simp add: rs1_def column_at_fillna_column_other)
      have others: "column_at j rs1 = column_at j rs" if "j \<in> set is" for j
      proof -
        have "j \<noteq> i" using that i(2) by blast
        then show ?thesis by (rule other)
      qed
      have "dropna_str (column_at i rs) \<noteq> []"
        using Some mode_None_iff[of "dropna_str (column_at i rs)"] by auto
      then have nf: "\<not> mode_fails (column_at i rs)" by (simp add: mode_fails_def)
      from Cons.IH[OF ok1 i(3,4)] show ?thesis
      proof
        assume "fill_modes is rs1 = Inl KeyError \<and> (\<exists>i\<in>set is. mode_fails (column_at i rs1))"
        then show ?thesis using step others by auto
      next
        assume "\<exists>rs'. fill_modes is rs1 = Inr rs' \<and> rows_ok n rs' \<and> length rs' = length rs1 \<and>
            (\<forall>i\<in>set is. \<not> mode_fails (column_at i rs1)) \<and>
            (\<forall>i\<in>set is. column_at i rs' = mode_fill (column_at i rs1)) \<and>
            (\<forall>j. j \<notin> set is \<longrightarrow> column_at j rs' = column_at j rs1)"
        then obtain rs' where r: "fill_modes is rs1 = Inr rs'" "rows_ok n rs'" "length rs' = length rs1"
            "\<forall>i\<in>set is. \<not> mode_fails (column_at i rs1)"
            "\<forall>i\<in>set is. column_at i rs' = mode_fill (column_at i rs1)"
            "\<forall>j. j \<notin> set is \<longrightarrow> column_at j rs' = column_at j rs1"
          by blast
        have "column_at i rs' = mode_fill (column_at i rs)" using r(6) i(2) same by simp
        then have "\<forall>j\<in>set (i # is). column_at j rs' = mode_fill (column_at j rs)"
          using r(5) others by simp
        moreover have "\<forall>j\<in>set (i # is). \<not> mode_fails (column_at j rs)"
          using r(4) nf others by simp
        moreover have "\<forall>j. j \<notin> set (i # is) \<longrightarrow> column_at j rs' = column_at j rs"
          using r(6) other by simp
        moreover have "length rs' = length rs" using r(3) len1 by simp
        moreover have "fill_modes (i # is) rs = Inr rs'" using step r(1) by simp
        moreover note r(2)
        ultimately show ?thesis by (intro disjI2 exI[of _ rs'] conjI) assumption+
      qed
    qed
  qed
qed


subsection \<open>What \<open>clean_data\<close> returns\<close>

lemma typed_column:
  assumes "wf_table t" "i < length (columns t)" "v \<in> set (column_at i (rows t))"
  shows "cell_ok (dtype_at t i) v"
proof -
  obtain r where r: "r \<in> set (rows t)" "v = r ! i" using assms(3) by (auto simp: column_at_def)
  have "list_all2 (\<lambda>c v. cell_ok (snd c) v) (columns t) r"
    using assms(1) r(1) by (auto simp: wf_table_def row_ok_def list_all_iff)
  from list_all2_nthD[OF this assms(2)] show ?thesis using r(2) by (simp add: dtype_at_def)
qed

lemma mode_fails_typed:
  assumes "wf_table t" "i < length (columns t)" "dtype_at t i = Categorical"
  shows "mode_fails (column_at i (drop_duplicates (rows t))) =
         entirely_missing (column_at i (rows t))"
proof -
  have ty: "v = NA \<or> (\<exists>s. v = Str s)" if "v \<in> set (column_at i (rows t))" for v
    using typed_column[OF assms(1,2) that] assms(3) by (cases v) (simp_all add: cell_ok_def)
  have s: "set (column_at i (drop_duplicates (rows t))) = set (column_at i (rows t))"
    by (rule set_column_at_drop_duplicates)
  have a: "dropna_str (column_at i (drop_duplicates (rows t))) = [] \<longleftrightarrow>
        (\<forall>s. Str s \<notin> set (column_at i (rows t)))"
  proof -
    have "dropna_str vs = [] \<longleftrightarrow> (\<forall>s. Str s \<notin> set vs)" for vs
      using dropna_str_set[of _ vs] by (metis all_not_in_conv set_empty)
    then show ?thesis using s by simp
  qed
  show ?thesis
  proof
    assume "mode_fails (column_at i (drop_duplicates (rows t)))"
    then have "NA \<in> set (column_at i (rows t))" "\<forall>s. Str s \<notin> set (column_at i (rows t))"
      using s a by (auto simp: mode_fails_def)
    then show "entirely_missing (column_at i (rows t))"
      using ty by (auto simp: entirely_missing_def list_all_iff)
  next
    assume "entirely_missing (column_at i (rows t))"
    then have "column_at i (rows t) \<noteq> []" "\<forall>v\<in>set (column_at i (rows t)). v = NA"
      by (simp_all add: entirely_missing_def list_all_iff)
    then have "NA \<in> set (column_at i (rows t))" "\<forall>s. Str s \<notin> set (column_at i (rows t))"
      by (cases "column_at i (rows t)"; auto)+
    then show "mode_fails (column_at i (drop_duplicates (rows t)))"
      using s a by (simp add: mode_fails_def)
  qed
qed

lemma cat_cols_set: "set (cat_cols cs) = {i. i < length cs \<and> snd (cs ! i) = Categorical}"
  by (auto simp: cat_cols_def)

lemma distinct_cat_cols: "distinct (cat_cols cs)"
  by (simp add: cat_cols_def)

lemma numeric_medians_nth:
  "i < length cs \<Longrightarrow> numeric_medians cs rs ! i =
     (if snd (cs ! i) \<noteq> Categorical
      then (case median (dropna_num (column_at i rs)) of Some m \<Rightarrow> Num m | None \<Rightarrow> NA)
      else NA)"
  by (simp add: numeric_medians_def)

lemma length_numeric_medians [simp]: "length (numeric_medians cs rs) = length cs"
  by (simp add: numeric_medians_def)

lemma map_fill_NA [simp]: "map (fill_cell NA) vs = vs"
  by (induction vs) (simp_all add: fill_cell_def)

lemma clean_data_result:
  assumes "wf_table t"
  shows "(clean_data t = Inl KeyError \<and>
            (\<exists>i<length (columns t). dtype_at t i = Categorical \<and>
               mode_fails (column_at i (drop_duplicates (rows t))))) \<or>
         (\<exists>rs'. clean_data t = Inr (t\<lparr>rows := rs'\<rparr>) \<and>
            length rs' = length (drop_duplicates (rows t)) \<and>
            (\<forall>i<length (columns t). dtype_at t i = Categorical \<longrightarrow>
               \<not> mode_fails (column_at i (drop_duplicates (rows t)))) \<and>
            (\<forall>i<length (columns t).
               column_at i rs' = impute (dtype_at t i) (column_at i (drop_duplicates (rows t)))))"
proof -
  define n where "n = length (columns t)"
  define rs where "rs = drop_duplicates (rows t)"
  define rs1 where "rs1 = fillna_rows (numeric_medians (columns t) rs) rs"
  have ok0: "rows_ok n (rows t)"
    using wf_table_len_ok[OF assms] by (simp add: len_ok_rows_ok n_def)
  have ok: "rows_ok n rs" unfolding rs_def by (rule rows_ok_drop_duplicates[OF ok0])
  have lm: "length (numeric_medians (columns t) rs) = n" by (simp add: n_def)
  have ok1: "rows_ok n rs1" unfolding rs1_def by (rule rows_ok_fillna_rows[OF ok lm])
  have col1: "column_at i rs1 = map (fill_cell (numeric_medians (columns t) rs ! i)) (column_at i rs)"
    if "i < n" for i
    unfolding rs1_def by (rule column_at_fillna_rows[OF ok lm that])
  have cat1: "column_at i rs1 = column_at i rs" if "i < n" "dtype_at t i = Categorical" for i
    using col1[OF that(1)] that by (simp add: numeric_medians_nth n_def dtype_at_def)
  have num1: "column_at i rs1 = impute (dtype_at t i) (column_at i rs)"
    if "i < n" "dtype_at t i \<noteq> Categorical" for i
    using col1[OF that(1)] that
    by (cases "dtype_at t i")
       (simp_all add: numeric_medians_nth n_def dtype_at_def impute_def split: option.splits)
  have cd: "clean_data t =
      (case fill_modes (cat_cols (columns t)) rs1 of Inl e \<Rightarrow> Inl e | Inr rs2 \<Rightarrow> Inr (t\<lparr>rows := rs2\<rparr>))"
    by (simp add: clean_data_def Let_def rs_def rs1_def)
  have idx: "\<forall>i\<in>set (cat_cols (columns t)). i < n" by (simp add: cat_cols_set n_def)
  have mem: "i \<in> set (cat_cols (columns t)) \<longleftrightarrow> i < n \<and> dtype_at t i = Categorical" for i
    by (simp add: cat_cols_set n_def dtype_at_def)
  from fill_modes_result[OF ok1 distinct_cat_cols idx] show ?thesis
  proof
    assume "fill_modes (cat_cols (columns t)) rs1 = Inl KeyError \<and>
        (\<exists>i\<in>set (cat_cols (columns t)). mode_fails (column_at i rs1))"
    then obtain i where f: "fill_modes (cat_cols (columns t)) rs1 = Inl KeyError"
        "i < n" "dtype_at t i = Categorical" "mode_fails (column_at i rs1)"
      using mem by blast
    have "mode_fails (column_at i rs)" using f(4) cat1[OF f(2,3)] by simp
    moreover have "clean_data t = Inl KeyError" using cd f(1) by simp
    ultimately show ?thesis using f(2,3) unfolding n_def rs_def by blast
  next
    assume "\<exists>rs'. fill_modes (cat_cols (columns t)) rs1 = Inr rs' \<and> rows_ok n rs' \<and>
        length rs' = length rs1 \<and>
        (\<forall>i\<in>set (cat_cols (columns t)). \<not> mode_fails (column_at i rs1)) \<and>
        (\<forall>i\<in>set (cat_cols (columns t)). column_at i rs' = mode_fill (column_at i rs1)) \<and>
        (\<forall>j. j \<notin> set (cat_cols (columns t)) \<longrightarrow> column_at j rs' = column_at j rs1)"
    then obtain rs' where r: "fill_modes (cat_cols (columns t)) rs1 = Inr rs'"
        "length rs' = length rs1"
        "\<forall>i\<in>set (cat_cols (columns t)). \<not> mode_fails (column_at i rs1)"
        "\<forall>i\<in>set (cat_cols (columns t)). column_at i rs' = mode_fill (column_at i rs1)"
        "\<forall>j. j \<notin> set (cat_cols (columns t)) \<longrightarrow> column_at j rs' = column_at j rs1"
      by blast
    have a: "clean_data t = Inr (t\<lparr>rows := rs'\<rparr>)" using cd r(1) by simp
    have b: "length rs' = length rs" using r(2) by (simp add: rs1_def)
    have c: "\<not> mode_fails (column_at i rs)" if "i < n" "dtype_at t i = Categorical" for i
    proof -
      have "i \<in> set (cat_cols (columns t))" using mem[of i] that by simp
      then have "\<not> mode_fails (column_at i rs1)" using r(3) by blast
      then show ?thesis using cat1[OF that] by simp
    qed
    have d: "column_at i rs' = impute (dtype_at t i) (column_at i rs)" if "i < n" for i
    proof (cases "dtype_at t i = Categorical")
      case False
      then have "i \<notin> set (cat_cols (columns t))" using mem[of i] by simp
      then show ?thesis using r(5) num1[OF that False] by simp
    next
      case True
      then have "i \<in> set (cat_cols (columns t))" using mem[of i] that by simp
      then have "column_at i rs' = mode_fill (column_at i rs)"
        using r(4) cat1[OF that True] by simp
      then show ?thesis using True by (simp add: impute_def mode_fill_def)
    qed
    show ?thesis
      unfolding rs_def[symmetric] n_def[symmetric] using a b c d
      by (intro disjI2 exI[of _ rs'] conjI allI impI) auto
  qed
qed


lemma not_entirely_missing:
  "\<not> entirely_missing vs \<Longrightarrow> vs = [] \<or> (\<exists>v\<in>set vs. v \<noteq> NA)"
  by (auto simp: entirely_missing_def list_all_iff)

lemma impute_fills:
  assumes "v \<in> set vs" "v \<noteq> NA" "cell_ok d v"
  shows "NA \<notin> set (impute d vs)"
proof (cases "d = Categorical")
  case False
  then obtain x where "v = Num x" using assms(2,3) by (cases d; cases v) (simp_all add: cell_ok_def)
  then have "dropna_num vs \<noteq> []" using assms(1) dropna_num_set[of x vs] by auto
  then obtain m where "median (dropna_num vs) = Some m"
    using median_None_iff[of "dropna_num vs"] by (cases "median (dropna_num vs)") auto
  then show ?thesis using False
    by (cases d) (simp_all add: impute_def fill_removes_NA del: set_map)
next
  case True
  then obtain s where "v = Str s" using assms(2,3) by (cases v) (simp_all add: cell_ok_def)
  then have "dropna_str vs \<noteq> []" using assms(1) dropna_str_set[of s vs] by auto
  then obtain m where "mode (dropna_str vs) = Some m"
    using mode_None_iff[of "dropna_str vs"] by (cases "mode (dropna_str vs)") auto
  then show ?thesis using True by (simp add: impute_def fill_removes_NA del: set_map)
qed

lemma impute_empty [simp]: "impute d [] = []"
  by (simp add: impute_def split: dtype.splits option.splits)

text \<open>The example of the customers, evaluated.\<close>

lemma clean_customers: "clean_data customers_example = Inr customers_cleaned"
proof -
  have d: "drop_duplicates (rows customers_example) =
      [[Num 30, Str ''Male''], [NA, Str ''Female''], [Num 50, NA], [Num 40, Str ''Male'']]"
    by (simp add: customers_example_def drop_duplicates_def)
  have m: "median [30, 50, 40] = Some 40" by (simp add: median_def Let_def)
  have mo: "mode [''Male'', ''Female'', ''Male''] = Some ''Male''"
    by (simp add: mode_def)
  have c: "columns customers_example = [(''Age'', Numeric), (''Gender'', Categorical)]"
    by (simp add: customers_example_def)
  have cc: "cat_cols [(''Age'', Numeric), (''Gender'', Categorical)] = [1]"
    by (simp add: cat_cols_def upt_rec)
  have nm: "numeric_medians [(''Age'', Numeric), (''Gender'', Categorical)]
      [[Num 30, Str ''Male''], [NA, Str ''Female''], [Num 50, NA], [Num 40, Str ''Male'']] = [Num 40, NA]"
    by (simp add: numeric_medians_def upt_rec column_at_def m median_def Let_def)
  show ?thesis
    by (simp add: clean_data_def Let_def d c cc nm fillna_rows_def column_at_def mo fillna_column_def)
       (simp add: customers_example_def customers_cleaned_def)
qed

section \<open>Facts about the label encoder\<close>

subsection \<open>Codes and classes\<close>

lemma index_of_nth_distinct:
  "distinct xs \<Longrightarrow> k < length xs \<Longrightarrow> index_of (xs ! k) xs = Some k"
proof (induction xs arbitrary: k)
  case Nil
  then show ?case by simp
next
  case (Cons x xs)
  show ?case
  proof (cases k)
    case 0
    then show ?thesis by simp
  next
    case (Suc k')
    then have "xs ! k' \<noteq> x" using Cons.prems by auto
    then show ?thesis using Suc Cons by auto
  qed
qed

lemma code_of_props:
  assumes "distinct classes" "y \<in> set classes"
  shows "code_of classes y < length classes" "classes ! code_of classes y = y"
proof -
  obtain k where k: "index_of y classes = Some k" using index_of_in[OF assms(2)] by blast
  then show "code_of classes y < length classes" "classes ! code_of classes y = y"
    using index_of_Some[OF k] by (simp_all add: code_of_def)
qed

lemma code_of_nth:
  "distinct classes \<Longrightarrow> k < length classes \<Longrightarrow> code_of classes (classes ! k) = k"
  by (simp add: code_of_def index_of_nth_distinct)

lemma code_of_bij:
  assumes "distinct classes"
  shows "bij_betw (code_of classes) (set classes) {0..<length classes}"
proof (rule bij_betw_byWitness[where f' = "\<lambda>k. classes ! k"])
  show "\<forall>y\<in>set classes. classes ! code_of classes y = y"
    using code_of_props(2)[OF assms] by blast
  show "\<forall>k\<in>{0..<length classes}. code_of classes (classes ! k) = k"
    using code_of_nth[OF assms] by simp
  show "code_of classes ` set classes \<subseteq> {0..<length classes}"
    using code_of_props(1)[OF assms] by auto
  show "(\<lambda>k. classes ! k) ` {0..<length classes} \<subseteq> set classes" by auto
qed

lemma class_less_Some [simp]: "class_less (Some x) (Some y) = (x < y)"
  by (simp add: class_less_def)

lemma class_less_None [simp]: "class_less (Some x) None" "\<not> class_less None b"
  by (simp_all add: class_less_def)

lemma class_less_irrefl: "\<not> class_less a a"
  by (cases a) simp_all

lemma class_less_asym: "class_less a b \<Longrightarrow> \<not> class_less b a"
  by (cases a; cases b) simp_all

lemma code_of_order:
  assumes "sorted_wrt class_less classes" "distinct classes"
    and "y1 \<in> set classes" "y2 \<in> set classes"
  shows "(code_of classes y1 < code_of classes y2) = class_less y1 y2"
proof -
  note d = assms(2)
  define k1 where "k1 = code_of classes y1"
  define k2 where "k2 = code_of classes y2"
  have k: "k1 < length classes" "classes ! k1 = y1" "k2 < length classes" "classes ! k2 = y2"
    using code_of_props[OF d assms(3)] code_of_props[OF d assms(4)] by (simp_all add: k1_def k2_def)
  have mono: "class_less (classes ! a) (classes ! b)" if "a < b" "b < length classes" for a b
    using assms(1) that by (simp add: sorted_wrt_nth_less)
  show ?thesis
  proof
    assume "code_of classes y1 < code_of classes y2"
    then show "class_less y1 y2" using mono[of k1 k2] k by (simp add: k1_def k2_def)
  next
    assume lt: "class_less y1 y2"
    show "code_of classes y1 < code_of classes y2"
    proof (rule ccontr)
      assume "\<not> code_of classes y1 < code_of classes y2"
      then have "k2 \<le> k1" by (simp add: k1_def k2_def)
      then have "k2 = k1 \<or> k2 < k1" by auto
      then show False
      proof
        assume "k2 = k1"
        then have "y1 = y2" using k by simp
        then show False using lt class_less_irrefl by simp
      next
        assume "k2 < k1"
        then have "class_less y2 y1" using mono[of k2 k1] k by simp
        then show False using lt class_less_asym by blast
      qed
    qed
  qed
qed

lemma set_dropna_opt: "set [s. Some s \<leftarrow> ys] = {s. Some s \<in> set ys}"
  by (induction ys) (auto split: option.splits)

lemma classes_props:
  "sorted_wrt class_less (label_classes ys)" "set (label_classes ys) = set ys"
  "distinct (label_classes ys)" "length (label_classes ys) = card (set ys)"
proof -
  define ss where "ss = sort (remdups [s. Some s \<leftarrow> ys])"
  define miss where "miss = (if None \<in> set ys then [None :: string option] else [])"
  have cl: "label_classes ys = map Some ss @ miss" by (simp add: label_classes_def ss_def miss_def)
  have d: "distinct ss" by (simp add: ss_def)
  have "sorted ss" by (simp add: ss_def)
  then have st: "sorted_wrt (<) ss" using d by (simp add: strict_sorted_iff)
  have s1: "sorted_wrt class_less (map Some ss)" using st by (simp add: sorted_wrt_map)
  have s2: "sorted_wrt class_less miss" by (simp add: miss_def)
  have s3: "\<forall>x\<in>set (map Some ss). \<forall>y\<in>set miss. class_less x y" by (auto simp: miss_def)
  show a: "sorted_wrt class_less (label_classes ys)"
    unfolding cl sorted_wrt_append using s1 s2 s3 by blast
  have sss: "set ss = {s. Some s \<in> set ys}" by (auto simp: ss_def)
  show b: "set (label_classes ys) = set ys"
  proof (rule set_eqI)
    fix y
    show "(y \<in> set (label_classes ys)) = (y \<in> set ys)"
      by (cases y) (auto simp: cl sss miss_def)
  qed
  have "distinct (map Some ss)" using d by (simp add: distinct_map)
  moreover have "distinct miss" by (simp add: miss_def)
  moreover have "set (map Some ss) \<inter> set miss = {}" by (auto simp: miss_def)
  ultimately show c: "distinct (label_classes ys)" unfolding cl by simp
  show "length (label_classes ys) = card (set ys)"
    using distinct_card[OF c] b by simp
qed

lemma astype_str_cases:
  "astype_str fmt v =
     (case v of Str s \<Rightarrow> Some s | Num x \<Rightarrow> Some (num_str fmt x) | NA \<Rightarrow> na_str fmt)"
  by (simp add: astype_str_def split: cell.splits)

lemma fit_transform_classes: "fst (fit_transform ys) = label_classes ys"
  by (simp add: fit_transform_def label_classes_def Let_def)


subsection \<open>The loop over the label columns\<close>

lemma label_step_present:
  assumes "len_ok t" "index_of c (col_names t) = Some i"
  shows "\<exists>t' encs'. label_step fmt c (t, encs) = (t', encs') \<and> col_names t' = col_names t \<and>
           len_ok t' \<and> length (rows t') = length (rows t) \<and>
           column_at i (rows t') = encode_col fmt (column_at i (rows t)) \<and>
           (\<forall>c' j. c' \<noteq> c \<longrightarrow> index_of c' (col_names t) = Some j \<longrightarrow>
              column_at j (rows t') = column_at j (rows t))"
proof -
  define classes where
    "classes = fst (fit_transform (map (astype_str fmt) (column_at i (rows t))))"
  define f where "f = (\<lambda>r::row. Num (of_nat (the (index_of (astype_str fmt (r ! i)) classes))))"
  define t' where "t' = set_column c (Integer 64) f t"
  have cl: "classes = label_classes (map (astype_str fmt) (column_at i (rows t)))"
    by (simp add: classes_def fit_transform_classes)
  have mem: "c \<in> set (col_names t)" using assms(2) index_of_None_iff[of c "col_names t"] by auto
  have names: "col_names t' = col_names t" using mem by (simp add: t'_def col_names_set_column)
  have step: "label_step fmt c (t, encs) = (t', encs(c \<mapsto> LabelEncoder classes))"
    using assms(2) by (simp add: label_step_def t'_def f_def classes_def Let_def)
  have ok: "len_ok t'" unfolding t'_def by (rule len_ok_set_column[OF assms(1)])
  have "index_of c (col_names (set_column c (Integer 64) f t)) = Some i"
    using names assms(2) by (simp add: t'_def)
  from column_at_set_column_same[OF assms(1) this]
  have "column_at i (rows t') = map f (rows t)" by (simp add: t'_def)
  also have "\<dots> = map (\<lambda>y. Num (of_nat (code_of classes y)))
                     (map (astype_str fmt) (column_at i (rows t)))"
    by (simp add: f_def column_at_def code_of_def comp_def)
  also have "\<dots> = encode_col fmt (column_at i (rows t))"
    unfolding cl encode_col_def Let_def astype_str_cases[symmetric] by (rule refl)
  finally have col: "column_at i (rows t') = encode_col fmt (column_at i (rows t))" .
  have other: "column_at j (rows t') = column_at j (rows t)"
    if "c' \<noteq> c" "index_of c' (col_names t) = Some j" for c' j
    unfolding t'_def by (rule column_at_set_column_other[OF assms(1) that(2) that(1)])
  have len: "length (rows t') = length (rows t)" by (simp add: t'_def)
  show ?thesis using step names ok len col other by blast
qed

lemma label_step_absent:
  "index_of c (col_names t) = None \<Longrightarrow> label_step fmt c (t, encs) = (t, encs)"
  by (simp add: label_step_def)

lemma label_step_frame:
  assumes "len_ok t"
  shows "\<exists>t' encs'. label_step fmt c (t, encs) = (t', encs') \<and> col_names t' = col_names t \<and>
           len_ok t' \<and> length (rows t') = length (rows t) \<and>
           (\<forall>c' j. c' \<noteq> c \<longrightarrow> index_of c' (col_names t) = Some j \<longrightarrow>
              column_at j (rows t') = column_at j (rows t))"
proof (cases "index_of c (col_names t)")
  case None
  show ?thesis using label_step_absent[OF None] assms by simp
next
  case (Some i)
  show ?thesis using label_step_present[OF assms Some, of fmt encs] by blast
qed

lemma label_loop_append:
  "label_loop fmt (xs @ ys) st = label_loop fmt ys (label_loop fmt xs st)"
  by (induction xs arbitrary: st) simp_all

lemma label_loop_frame:
  assumes "len_ok t"
  shows "\<exists>t' encs'. label_loop fmt cols (t, encs) = (t', encs') \<and> col_names t' = col_names t \<and>
           len_ok t' \<and> length (rows t') = length (rows t) \<and>
           (\<forall>c i. c \<notin> set cols \<longrightarrow> index_of c (col_names t) = Some i \<longrightarrow>
              column_at i (rows t') = column_at i (rows t))"
  using assms
proof (induction cols arbitrary: t encs)
  case Nil
  then show ?case by simp
next
  case (Cons c cols)
  from label_step_frame[OF Cons.prems, of fmt c encs] obtain t1 encs1 where
    s: "label_step fmt c (t, encs) = (t1, encs1)" "col_names t1 = col_names t" "len_ok t1"
      "length (rows t1) = length (rows t)"
      "\<forall>c' j. c' \<noteq> c \<longrightarrow> index_of c' (col_names t) = Some j \<longrightarrow>
            column_at j (rows t1) = column_at j (rows t)"
    by blast
  have step: "label_loop fmt (c # cols) (t, encs) = label_loop fmt cols (t1, encs1)"
    using s(1) by simp
  from Cons.IH[OF s(3), of encs1] obtain t' encs' where
    r: "label_loop fmt cols (t1, encs1) = (t', encs')" "col_names t' = col_names t1" "len_ok t'"
      "length (rows t') = length (rows t1)"
      "\<forall>c i. c \<notin> set cols \<longrightarrow> index_of c (col_names t1) = Some i \<longrightarrow>
            column_at i (rows t') = column_at i (rows t1)"
    by blast
  show ?case
  proof (intro exI conjI allI impI)
    show "label_loop fmt (c # cols) (t, encs) = (t', encs')" using step r(1) by simp
    show "col_names t' = col_names t" using r(2) s(2) by simp
    show "len_ok t'" by (rule r(3))
    show "length (rows t') = length (rows t)" using r(4) s(4) by simp
    show "column_at j (rows t') = column_at j (rows t)"
      if h: "c' \<notin> set (c # cols)" "index_of c' (col_names t) = Some j" for c' j
    proof -
      have "c' \<noteq> c" "c' \<notin> set cols" using h(1) by simp_all
      then have "column_at j (rows t') = column_at j (rows t1)" using r(5) h(2) s(2) by simp
      moreover have "column_at j (rows t1) = column_at j (rows t)"
        using s(5) \<open>c' \<noteq> c\<close> h(2) by blast
      ultimately show ?thesis by simp
    qed
  qed
qed

lemma count_list_once:
  assumes "count_list xs x = 1"
  shows "\<exists>pre post. xs = pre @ x # post \<and> x \<notin> set pre \<and> x \<notin> set post"
proof -
  have "x \<in> set xs" using assms count_list_0_iff[of xs x] by auto
  from split_list_first[OF this] obtain pre post where
    sp: "xs = pre @ x # post" "x \<notin> set pre" by blast
  have "count_list pre x = 0" using sp(2) by (simp add: count_list_0_iff)
  then have "count_list post x = 0" using assms by (simp add: sp(1))
  then have "x \<notin> set post" by (simp add: count_list_0_iff)
  then show ?thesis using sp by blast
qed


subsection \<open>The one-hot stage keeps the other columns\<close>

lemma index_in_selection:
  assumes "distinct ns" "i < length ns" "i \<in> set js" "\<forall>j\<in>set js. j < length ns"
  shows "\<exists>p<length js. js ! p = i \<and> index_of (ns ! i) (map (\<lambda>j. ns ! j) js @ extra) = Some p"
proof -
  have mem: "ns ! i \<in> set (map (\<lambda>j. ns ! j) js)" using assms(3) by (simp add: image_iff) blast
  from index_of_in[OF mem] obtain p where p: "index_of (ns ! i) (map (\<lambda>j. ns ! j) js) = Some p" ..
  have q0: "p < length (map (\<lambda>j. ns ! j) js)" "map (\<lambda>j. ns ! j) js ! p = ns ! i"
    using index_of_Some[OF p] by blast+
  have q1: "p < length js" using q0(1) by simp
  have q2: "ns ! (js ! p) = ns ! i" using q0(2) q1 by simp
  note q = q1 q2
  have "js ! p \<in> set js" using q(1) by simp
  then have b: "js ! p < length ns" using assms(4) by blast
  have c: "js ! p = i"
    using q(2) nth_eq_iff_index_eq[OF assms(1) b assms(2)] by simp
  have d: "index_of (ns ! i) (map (\<lambda>j. ns ! j) js @ extra) = Some p"
    using index_of_append_in[OF mem, of extra] p by simp
  show ?thesis
  proof (intro exI[of _ p] conjI)
    show "p < length js" by (rule q(1))
    show "js ! p = i" by (rule c)
    show "index_of (ns ! i) (map (\<lambda>j. ns ! j) js @ extra) = Some p" by (rule d)
  qed
qed


lemma onehot_stage_shape:
  assumes "onehot_stage fmt df oh (t, encs) = Inr (t', encs')"
  shows "\<exists>ohe_cols ohe_row.
           columns t' = map (\<lambda>j. columns t ! j)
               (filter (\<lambda>j. col_names t ! j \<notin> set oh) [0..<length (columns t)]) @ ohe_cols \<and>
           rows t' = map (\<lambda>r. map (\<lambda>j. r ! j)
               (filter (\<lambda>j. col_names t ! j \<notin> set oh) [0..<length (columns t)]) @ ohe_row r) (rows t)"
proof (cases "those (map (\<lambda>c. index_of c (col_names t)) oh)")
  case None
  have "onehot_stage fmt df oh (t, encs) = Inl KeyError"
    unfolding onehot_stage_def prod.case None option.case by (rule refl)
  then show ?thesis using assms by simp
next
  case (Some idxs)
  show ?thesis
  proof (cases "rows t = []")
    case True
    have "onehot_stage fmt df oh (t, encs) = Inl ValueError"
      unfolding onehot_stage_def prod.case Some option.case using True by simp
    then show ?thesis using assms by simp
  next
    case False
    show ?thesis
    proof (cases "collect (map (\<lambda>i. ohe_categories (column_at i (rows t))) idxs)")
      case (Inl e)
      have "onehot_stage fmt df oh (t, encs) = Inl e"
        unfolding onehot_stage_def prod.case Some option.case Inl sum.case using False by simp
      then show ?thesis using assms by simp
    next
      case (Inr cats)
      define kept where "kept = map (\<lambda>cs. if df then tl cs else cs) cats"
      define ohe_cols where "ohe_cols =
        concat (map2 (\<lambda>c ks. map (\<lambda>k. (c @ ''_'' @ category_str fmt k, Numeric)) ks) oh kept)"
      define ohe_row where "ohe_row =
        (\<lambda>r::row. concat (map2 (\<lambda>i ks. map (\<lambda>k. if r ! i = k then Num 1 else Num 0) ks) idxs kept))"
      define rest where "rest = filter (\<lambda>j. col_names t ! j \<notin> set oh) [0..<length (columns t)]"
      have "onehot_stage fmt df oh (t, encs) =
          Inr (\<lparr>columns = map (\<lambda>j. columns t ! j) rest @ ohe_cols,
                rows = map (\<lambda>r. map (\<lambda>j. r ! j) rest @ ohe_row r) (rows t)\<rparr>,
               encs(''onehot'' \<mapsto> OneHotEncoder cats))"
        unfolding onehot_stage_def prod.case Some option.case Inr sum.case Let_def
          kept_def ohe_cols_def ohe_row_def rest_def
        using False by simp
      then have t': "t' = \<lparr>columns = map (\<lambda>j. columns t ! j) rest @ ohe_cols,
                rows = map (\<lambda>r. map (\<lambda>j. r ! j) rest @ ohe_row r) (rows t)\<rparr>"
        using assms by simp
      have "columns t' = map (\<lambda>j. columns t ! j) rest @ ohe_cols \<and>
            rows t' = map (\<lambda>r. map (\<lambda>j. r ! j) rest @ ohe_row r) (rows t)"
        by (simp add: t')
      then show ?thesis unfolding rest_def by (intro exI[of _ ohe_cols] exI[of _ ohe_row])
    qed
  qed
qed


lemma onehot_stage_keeps:
  assumes "distinct (col_names t)" "index_of c (col_names t) = Some i" "c \<notin> set oh"
    and "onehot_stage fmt df oh (t, encs) = Inr (t', encs')"
  shows "\<exists>p. index_of c (col_names t') = Some p \<and> column_at p (rows t') = column_at i (rows t)"
proof -
  define rest where "rest = filter (\<lambda>j. col_names t ! j \<notin> set oh) [0..<length (columns t)]"
  obtain ohe_cols ohe_row where sh:
      "columns t' = map (\<lambda>j. columns t ! j) rest @ ohe_cols"
      "rows t' = map (\<lambda>r. map (\<lambda>j. r ! j) rest @ ohe_row r) (rows t)"
    using onehot_stage_shape[OF assms(4)] unfolding rest_def by blast
  have i: "i < length (col_names t)" "col_names t ! i = c"
    using index_of_Some[OF assms(2)] by blast+
  have irest: "i \<in> set rest" using i assms(3) by (simp add: rest_def)
  have bound: "\<forall>j\<in>set rest. j < length (col_names t)" by (simp add: rest_def)
  have "map fst (map (\<lambda>j. columns t ! j) rest) = map (\<lambda>j. col_names t ! j) rest"
    using bound by (simp add: col_names_def)
  then have names: "col_names t' = map (\<lambda>j. col_names t ! j) rest @ map fst ohe_cols"
    by (simp add: col_names_def sh(1))
  obtain p where p: "p < length rest" "rest ! p = i"
      "index_of (col_names t ! i) (map (\<lambda>j. col_names t ! j) rest @ map fst ohe_cols) = Some p"
    using index_in_selection[OF assms(1) i(1) irest bound, of "map fst ohe_cols"] by blast
  have a: "index_of c (col_names t') = Some p" using p(3) i(2) names by simp
  have "(map (\<lambda>j. r ! j) rest @ ohe_row r) ! p = r ! i" for r :: row
    using p(1,2) by (simp add: nth_append)
  then have b: "column_at p (rows t') = column_at i (rows t)"
    by (simp add: column_at_def sh(2))
  show ?thesis using a b by blast
qed

lemma encode_col_codes:
  "encode_col fmt (column_at i (rows t)) =
     map (\<lambda>y. Num (of_nat (code_of (label_classes (label_strings fmt t i)) y)))
       (label_strings fmt t i)"
  by (simp add: encode_col_def label_strings_def Let_def)

lemma encode_label_stage:
  assumes "wf_table t" "count_list cols c = 1" "index_of c (col_names t) = Some i"
  shows "\<exists>t1 encs1. label_loop fmt cols (t, Map.empty) = (t1, encs1) \<and>
           col_names t1 = col_names t \<and> length (rows t1) = length (rows t) \<and>
           column_at i (rows t1) = encode_col fmt (column_at i (rows t))"
proof -
  obtain pre post where sp: "cols = pre @ c # post" "c \<notin> set pre" "c \<notin> set post"
    using count_list_once[OF assms(2)] by blast
  from label_loop_frame[OF wf_table_len_ok[OF assms(1)], of fmt pre Map.empty]
  obtain ta ea where
    a: "label_loop fmt pre (t, Map.empty) = (ta, ea)" "col_names ta = col_names t" "len_ok ta"
      "length (rows ta) = length (rows t)"
      "\<forall>c i. c \<notin> set pre \<longrightarrow> index_of c (col_names t) = Some i \<longrightarrow>
            column_at i (rows ta) = column_at i (rows t)"
    by blast
  have ia: "index_of c (col_names ta) = Some i" using assms(3) a(2) by simp
  have ca: "column_at i (rows ta) = column_at i (rows t)" using a(5) sp(2) assms(3) by blast
  from label_step_present[OF a(3) ia, of fmt ea] obtain tb eb where
    b: "label_step fmt c (ta, ea) = (tb, eb)" "col_names tb = col_names ta" "len_ok tb"
      "length (rows tb) = length (rows ta)"
      "column_at i (rows tb) = encode_col fmt (column_at i (rows ta))"
    by blast
  have ib: "index_of c (col_names tb) = Some i" using ia b(2) by simp
  from label_loop_frame[OF b(3), of fmt post eb] obtain tc ec where
    c: "label_loop fmt post (tb, eb) = (tc, ec)" "col_names tc = col_names tb"
      "length (rows tc) = length (rows tb)"
      "\<forall>c i. c \<notin> set post \<longrightarrow> index_of c (col_names tb) = Some i \<longrightarrow>
            column_at i (rows tc) = column_at i (rows tb)"
    by blast
  have cc: "column_at i (rows tc) = column_at i (rows tb)" using c(4) sp(3) ib by blast
  have run: "label_loop fmt cols (t, Map.empty) = (tc, ec)"
    unfolding sp(1) label_loop_append using a(1) b(1) c(1) by simp
  show ?thesis
  proof (intro exI conjI)
    show "label_loop fmt cols (t, Map.empty) = (tc, ec)" by (rule run)
    show "col_names tc = col_names t" using c(2) b(2) a(2) by simp
    show "length (rows tc) = length (rows t)" using c(3) b(4) a(4) by simp
    show "column_at i (rows tc) = encode_col fmt (column_at i (rows t))"
      using cc b(5) ca by simp
  qed
qed

section \<open>Age groups (C1)\<close>

lemma keeps_column_refl [simp]: "keeps_column c t t"
  by (simp add: keeps_column_def)

lemma keeps_column_trans:
  "keeps_column c t t1 \<Longrightarrow> keeps_column c t1 t2 \<Longrightarrow> keeps_column c t t2"
  by (auto simp: keeps_column_def)

lemma keeps_column_set_column:
  "len_ok t \<Longrightarrow> c \<noteq> n \<Longrightarrow> keeps_column c t (set_column n d f t)"
  by (simp add: keeps_column_def index_of_set_column_other column_at_set_column_other)

lemma index_of_set_column_same: "\<exists>j. index_of n (col_names (set_column n d f t)) = Some j"
  by (rule index_of_in) (simp add: col_names_set_column)

lemma cut_code_age:
  "cut_code age_bins False x =
     (if x < 0 then None else if x < 18 then Some 0 else if x < 25 then Some 1
      else if x < 35 then Some 2 else if x < 45 then Some 3 else if x < 55 then Some 4
      else if x < 65 then Some 5 else if x < 100 then Some 6 else None)"
  by (simp add: cut_code_def searchsorted_def age_bins_def)

lemma in_age_bin_iff:
  "in_age_bin x l =
     (l = ''<18'' \<and> 0 \<le> x \<and> x < 18 \<or> l = ''18-24'' \<and> 18 \<le> x \<and> x < 25 \<or>
      l = ''25-34'' \<and> 25 \<le> x \<and> x < 35 \<or> l = ''35-44'' \<and> 35 \<le> x \<and> x < 45 \<or>
      l = ''45-54'' \<and> 45 \<le> x \<and> x < 55 \<or> l = ''55-64'' \<and> 55 \<le> x \<and> x < 65 \<or>
      l = ''65+'' \<and> 65 \<le> x \<and> x < 100)"
  by (auto simp: in_age_bin_def age_bin_table_def)

lemma cut_age_Num:
  "(cut_cell age_bins age_labels False (Num x) = Str l) = in_age_bin x l"
proof -
  consider "x < 0" | "0 \<le> x" "x < 18" | "18 \<le> x" "x < 25" | "25 \<le> x" "x < 35"
    | "35 \<le> x" "x < 45" | "45 \<le> x" "x < 55" | "55 \<le> x" "x < 65" | "65 \<le> x" "x < 100"
    | "100 \<le> x" by linarith
  then show ?thesis
  proof cases
    case 1 then show ?thesis by (simp add: cut_cell_def cut_code_age in_age_bin_iff age_labels_def)
  next
    case 2 then show ?thesis by (auto simp add: cut_cell_def cut_code_age in_age_bin_iff age_labels_def)
  next
    case 3 then show ?thesis by (auto simp add: cut_cell_def cut_code_age in_age_bin_iff age_labels_def)
  next
    case 4 then show ?thesis by (auto simp add: cut_cell_def cut_code_age in_age_bin_iff age_labels_def)
  next
    case 5 then show ?thesis by (auto simp add: cut_cell_def cut_code_age in_age_bin_iff age_labels_def)
  next
    case 6 then show ?thesis by (auto simp add: cut_cell_def cut_code_age in_age_bin_iff age_labels_def)
  next
    case 7 then show ?thesis by (auto simp add: cut_cell_def cut_code_age in_age_bin_iff age_labels_def)
  next
    case 8 then show ?thesis by (auto simp add: cut_cell_def cut_code_age in_age_bin_iff age_labels_def)
  next
    case 9 then show ?thesis by (simp add: cut_cell_def cut_code_age in_age_bin_iff age_labels_def)
  qed
qed

lemma cut_age_iff:
  "(cut_cell age_bins age_labels False c = Str l) = (\<exists>x. c = Num x \<and> in_age_bin x l)"
  by (cases c) (simp_all add: cut_age_Num, simp_all add: cut_cell_def)

lemma cut_age_cases:
  "cut_cell age_bins age_labels False c = NA \<or> (\<exists>l. cut_cell age_bins age_labels False c = Str l)"
  by (simp add: cut_cell_def split: cell.splits option.splits)

lemma in_age_bin_unique: "in_age_bin x l \<Longrightarrow> in_age_bin x l' \<Longrightarrow> l = l'"
  by (auto simp: in_age_bin_iff)

lemma in_age_bin_total: "0 \<le> x \<Longrightarrow> x < 100 \<Longrightarrow> \<exists>l. in_age_bin x l"
proof -
  assume "0 \<le> x" "x < 100"
  then have "x < 18 \<or> 18 \<le> x \<and> x < 25 \<or> 25 \<le> x \<and> x < 35 \<or> 35 \<le> x \<and> x < 45 \<or>
      45 \<le> x \<and> x < 55 \<or> 55 \<le> x \<and> x < 65 \<or> 65 \<le> x" by linarith
  then show ?thesis using \<open>0 \<le> x\<close> \<open>x < 100\<close> unfolding in_age_bin_iff ex_disj_distrib by simp
qed

lemma in_age_bin_range: "in_age_bin x l \<Longrightarrow> 0 \<le> x \<and> x < 100"
  by (auto simp: in_age_bin_iff)

lemma add_age_group_result:
  assumes "len_ok t" "index_of ''Age'' (col_names t) = Some i" "\<not> has_str i (rows t)"
  shows "\<exists>t1 j. add_age_group t = Inr t1 \<and> len_ok t1 \<and> length (rows t1) = length (rows t) \<and>
           index_of ''Age_Group'' (col_names t1) = Some j \<and>
           column_at j (rows t1) = map (cut_cell age_bins age_labels False) (column_at i (rows t))"
proof -
  define f where "f = (\<lambda>r::row. cut_cell age_bins age_labels False (r ! i))"
  define t0 where "t0 = set_column ''Age_Group'' Categorical f t"
  obtain j where j: "index_of ''Age_Group'' (col_names t0) = Some j"
    unfolding t0_def using index_of_set_column_same by blast
  define g where "g = (\<lambda>r::row. cat_codes age_labels (r ! j))"
  define t1 where "t1 = set_column ''Age_Group_Ordinal'' (Integer 8) g t0"
  have res: "add_age_group t = Inr t1"
    using assms(2,3) j by (simp add: add_age_group_def t1_def t0_def f_def g_def Let_def)
  have ok0: "len_ok t0" unfolding t0_def by (rule len_ok_set_column[OF assms(1)])
  have ok1: "len_ok t1" unfolding t1_def by (rule len_ok_set_column[OF ok0])
  have c0: "column_at j (rows t0) = map f (rows t)"
    using column_at_set_column_same[OF assms(1)] j unfolding t0_def by blast
  have k: "keeps_column ''Age_Group'' t0 t1"
    unfolding t1_def by (rule keeps_column_set_column[OF ok0]) simp
  have "index_of ''Age_Group'' (col_names t1) = Some j" "column_at j (rows t1) = map f (rows t)"
    using k j c0 by (auto simp: keeps_column_def)
  moreover have "map f (rows t) = map (cut_cell age_bins age_labels False) (column_at i (rows t))"
    by (simp add: f_def column_at_def)
  moreover have "length (rows t1) = length (rows t)" by (simp add: t1_def t0_def)
  ultimately show ?thesis using res ok1 by auto
qed


lemma wf_numeric_no_str:
  assumes "wf_table t" "index_of c (col_names t) = Some i" "dtype_at t i \<noteq> Categorical"
  shows "\<not> has_str i (rows t)"
proof -
  have i: "i < length (columns t)" using assms(2) index_of_Some[of c "col_names t" i] by simp
  have "\<not> is_str (r ! i)" if "r \<in> set (rows t)" for r
  proof -
    have "list_all2 (\<lambda>c v. cell_ok (snd c) v) (columns t) r"
      using assms(1) that by (auto simp: wf_table_def row_ok_def list_all_iff)
    from list_all2_nthD[OF this i] have "cell_ok (snd (columns t ! i)) (r ! i)" by simp
    then show ?thesis using assms(3)
      by (cases "snd (columns t ! i)"; cases "r ! i")
         (simp_all add: cell_ok_def is_str_def dtype_at_def)
  qed
  then show ?thesis by (auto simp: has_str_def column_at_def list_ex_iff)
qed

lemma numeric_column_no_str: "wf_table t \<Longrightarrow> numeric_column t c \<Longrightarrow> no_str t c"
  by (auto simp: numeric_column_def no_str_def wf_numeric_no_str split: option.splits)

lemma keeps_column_no_str: "keeps_column c t t' \<Longrightarrow> no_str t c \<Longrightarrow> no_str t' c"
  by (auto simp: keeps_column_def no_str_def has_str_def split: option.splits)

lemma add_age_group_frame:
  assumes "len_ok t" "no_str t ''Age''"
  shows "\<exists>t1. add_age_group t = Inr t1 \<and> len_ok t1 \<and> length (rows t1) = length (rows t) \<and>
           (\<forall>c. c \<noteq> ''Age_Group'' \<longrightarrow> c \<noteq> ''Age_Group_Ordinal'' \<longrightarrow> keeps_column c t t1)"
proof (cases "index_of ''Age'' (col_names t)")
  case None
  then show ?thesis using assms by (simp add: add_age_group_def)
next
  case (Some i)
  define t0 where "t0 = set_column ''Age_Group'' Categorical
      (\<lambda>r. cut_cell age_bins age_labels False (r ! i)) t"
  define j where "j = the (index_of ''Age_Group'' (col_names t0))"
  define t1 where "t1 = set_column ''Age_Group_Ordinal'' (Integer 8) (\<lambda>r. cat_codes age_labels (r ! j)) t0"
  have res: "add_age_group t = Inr t1"
    using assms(2) Some by (simp add: add_age_group_def no_str_def t1_def t0_def j_def Let_def)
  have ok0: "len_ok t0" unfolding t0_def by (rule len_ok_set_column[OF assms(1)])
  have ok1: "len_ok t1" unfolding t1_def by (rule len_ok_set_column[OF ok0])
  have "keeps_column c t t1" if "c \<noteq> ''Age_Group''" "c \<noteq> ''Age_Group_Ordinal''" for c
  proof -
    have a: "keeps_column c t t0"
      unfolding t0_def by (rule keeps_column_set_column[OF assms(1) that(1)])
    have b: "keeps_column c t0 t1"
      unfolding t1_def by (rule keeps_column_set_column[OF ok0 that(2)])
    show ?thesis by (rule keeps_column_trans[OF a b])
  qed
  moreover have "length (rows t1) = length (rows t)" by (simp add: t1_def t0_def)
  ultimately show ?thesis using res ok1 by blast
qed

lemma add_purchase_category_frame:
  assumes "len_ok t" "no_str t ''Purchase Amount (USD)''"
  shows "\<exists>t1. add_purchase_category t = Inr t1 \<and> len_ok t1 \<and> length (rows t1) = length (rows t) \<and>
           (\<forall>c. c \<noteq> ''Purchase_Category'' \<longrightarrow> keeps_column c t t1)"
  using assms
  by (cases "index_of ''Purchase Amount (USD)'' (col_names t)")
     (simp_all add: add_purchase_category_def no_str_def len_ok_set_column keeps_column_set_column)

lemma add_discount_or_promo_frame:
  assumes "len_ok t"
  shows "len_ok (add_discount_or_promo t) \<and>
         length (rows (add_discount_or_promo t)) = length (rows t) \<and>
         (\<forall>c. c \<noteq> ''Discount_or_Promo'' \<longrightarrow> keeps_column c t (add_discount_or_promo t))"
  using assms
  by (simp add: add_discount_or_promo_def len_ok_set_column keeps_column_set_column
      split: option.splits)

lemma add_is_repeat_customer_frame:
  assumes "len_ok t" "no_str t ''Previous Purchases''"
  shows "\<exists>t1. add_is_repeat_customer t = Inr t1 \<and> len_ok t1 \<and>
           length (rows t1) = length (rows t) \<and>
           (\<forall>c. c \<noteq> ''Is_Repeat_Customer'' \<longrightarrow> keeps_column c t t1)"
  using assms
  by (cases "index_of ''Previous Purchases'' (col_names t)")
     (simp_all add: add_is_repeat_customer_def no_str_def len_ok_set_column keeps_column_set_column)

lemma add_season_category_frame:
  assumes "len_ok t"
  shows "len_ok (add_season_category fmt t) \<and>
         length (rows (add_season_category fmt t)) = length (rows t) \<and>
         (\<forall>c. c \<noteq> ''Season_Category'' \<longrightarrow> keeps_column c t (add_season_category fmt t))"
  using assms
  by (simp add: add_season_category_def len_ok_set_column keeps_column_set_column
      split: option.splits)

lemma feature_engineering_age_group:
  assumes "len_ok t" and "index_of ''Age'' (col_names t) = Some i" and "\<not> has_str i (rows t)"
    and "no_str t ''Purchase Amount (USD)''" and "no_str t ''Previous Purchases''"
  shows "\<exists>t' j. feature_engineering fmt t = Inr t' \<and> len_ok t' \<and>
           index_of ''Age_Group'' (col_names t') = Some j \<and>
           column_at j (rows t') = map (cut_cell age_bins age_labels False) (column_at i (rows t))"
proof -
  have ns: "no_str t ''Age''" using assms(2,3) by (simp add: no_str_def)
  obtain t1 j where t1: "add_age_group t = Inr t1" "len_ok t1"
      "index_of ''Age_Group'' (col_names t1) = Some j"
      "column_at j (rows t1) = map (cut_cell age_bins age_labels False) (column_at i (rows t))"
    using add_age_group_result[OF assms(1,2,3)] by blast
  have k1: "keeps_column c t t1" if "c \<noteq> ''Age_Group''" "c \<noteq> ''Age_Group_Ordinal''" for c
    using add_age_group_frame[OF assms(1) ns] t1(1) that by auto
  have "no_str t1 ''Purchase Amount (USD)''"
    by (rule keeps_column_no_str[OF k1 assms(4)]) simp_all
  then obtain t2 where t2: "add_purchase_category t1 = Inr t2" "len_ok t2"
      "\<forall>c. c \<noteq> ''Purchase_Category'' \<longrightarrow> keeps_column c t1 t2"
    using add_purchase_category_frame[OF t1(2)] by blast
  define t3 where "t3 = add_discount_or_promo t2"
  have t3: "len_ok t3" "\<forall>c. c \<noteq> ''Discount_or_Promo'' \<longrightarrow> keeps_column c t2 t3"
    using add_discount_or_promo_frame[OF t2(2)] by (simp_all add: t3_def)
  have "keeps_column ''Previous Purchases'' t t1" by (rule k1) simp_all
  moreover have "keeps_column ''Previous Purchases'' t1 t2" using t2(3) by simp
  moreover have "keeps_column ''Previous Purchases'' t2 t3" using t3(2) by simp
  ultimately have "keeps_column ''Previous Purchases'' t t3"
    using keeps_column_trans by blast
  then have "no_str t3 ''Previous Purchases''" using assms(5) keeps_column_no_str by blast
  then obtain t4 where t4: "add_is_repeat_customer t3 = Inr t4" "len_ok t4"
      "\<forall>c. c \<noteq> ''Is_Repeat_Customer'' \<longrightarrow> keeps_column c t3 t4"
    using add_is_repeat_customer_frame[OF t3(1)] by blast
  define t5 where "t5 = add_season_category fmt t4"
  have t5: "len_ok t5" "\<forall>c. c \<noteq> ''Season_Category'' \<longrightarrow> keeps_column c t4 t5"
    using add_season_category_frame[OF t4(2)] by (simp_all add: t5_def)
  have res: "feature_engineering fmt t = Inr t5"
    using t1(1) t2(1) t4(1) by (simp add: feature_engineering_def bind_err_def t3_def t5_def)
  have "keeps_column ''Age_Group'' t1 t2" using t2(3) by simp
  moreover have "keeps_column ''Age_Group'' t2 t3" using t3(2) by simp
  moreover have "keeps_column ''Age_Group'' t3 t4" using t4(3) by simp
  moreover have "keeps_column ''Age_Group'' t4 t5" using t5(2) by simp
  ultimately have "keeps_column ''Age_Group'' t1 t5"
    using keeps_column_trans by blast
  then have "index_of ''Age_Group'' (col_names t5) = Some j"
      "column_at j (rows t5) = column_at j (rows t1)"
    using t1(3) by (auto simp: keeps_column_def)
  then show ?thesis using res t5(1) t1(4) by auto
qed



text \<open>
  Claim C1, as the code has it. For a well-formed frame with a numeric \<open>Age\<close> column
  (and numeric purchase columns, where present) \<open>feature_engineering\<close> returns a frame
  whose \<open>Age_Group\<close> cell is the label \<open>l\<close> exactly when the age of the row lies in
  the bin of \<open>l\<close>, every bin of \<open>age_bin_table\<close> being closed on the left and open on
  the right, the last one \<open>[65, 100)\<close> included. So every age in \<open>[0, 100)\<close> gets
  exactly one label, and an age of 100 or more gets none (a missing value).
\<close>

theorem age_group_bins:
  assumes "wf_table t" and "index_of ''Age'' (col_names t) = Some i"
    and "dtype_at t i \<noteq> Categorical"
    and "numeric_column t ''Purchase Amount (USD)''"
    and "numeric_column t ''Previous Purchases''"
  shows "\<exists>t' j. feature_engineering fmt t = Inr t' \<and>
           index_of ''Age_Group'' (col_names t') = Some j \<and>
           length (rows t') = length (rows t) \<and>
           (\<forall>n<length (rows t). \<forall>l.
              (rows t' ! n ! j = Str l) = (\<exists>x. rows t ! n ! i = Num x \<and> in_age_bin x l)) \<and>
           (\<forall>n<length (rows t). \<forall>x. rows t ! n ! i = Num x \<longrightarrow> 0 \<le> x \<longrightarrow> x < 100 \<longrightarrow>
              (\<exists>!l. rows t' ! n ! j = Str l)) \<and>
           (\<forall>n<length (rows t). \<forall>x. rows t ! n ! i = Num x \<longrightarrow> 100 \<le> x \<longrightarrow>
              rows t' ! n ! j = NA)"
proof -
  have ok: "len_ok t" by (rule wf_table_len_ok[OF assms(1)])
  have ns: "\<not> has_str i (rows t)" by (rule wf_numeric_no_str[OF assms(1,2,3)])
  obtain t' j where r: "feature_engineering fmt t = Inr t'"
      "index_of ''Age_Group'' (col_names t') = Some j"
      "column_at j (rows t') = map (cut_cell age_bins age_labels False) (column_at i (rows t))"
    using feature_engineering_age_group[OF ok assms(2) ns
        numeric_column_no_str[OF assms(1,4)] numeric_column_no_str[OF assms(1,5)]]
    by blast
  have len: "length (rows t') = length (rows t)"
    using arg_cong[OF r(3), of length] by (simp add: column_at_def)
  have cell: "rows t' ! n ! j = cut_cell age_bins age_labels False (rows t ! n ! i)"
    if "n < length (rows t)" for n
    using arg_cong[OF r(3), of "\<lambda>xs. xs ! n"] that len by (simp add: column_at_def)
  have a: "(rows t' ! n ! j = Str l) = (\<exists>x. rows t ! n ! i = Num x \<and> in_age_bin x l)"
    if "n < length (rows t)" for n l
    by (simp add: cell[OF that] cut_age_iff)
  have b: "\<exists>!l. rows t' ! n ! j = Str l"
    if h: "n < length (rows t)" "rows t ! n ! i = Num x" "0 \<le> x" "x < 100" for n x
  proof -
    obtain l where "in_age_bin x l" using in_age_bin_total[OF h(3,4)] by blast
    then have "rows t' ! n ! j = Str l" using a[OF h(1)] h(2) by simp
    then show ?thesis by auto
  qed
  have c: "rows t' ! n ! j = NA"
    if "n < length (rows t)" "rows t ! n ! i = Num x" "100 \<le> x" for n x
  proof -
    have "\<not> in_age_bin x l" for l using in_age_bin_range[of x l] that(3) by auto
    then have "rows t' ! n ! j \<noteq> Str l" for l using a[OF that(1)] that(2) by simp
    then show ?thesis
      using cut_age_cases[of "rows t ! n ! i"] cell[OF that(1)] by auto
  qed
  show ?thesis
  proof (intro exI conjI allI impI)
    show "feature_engineering fmt t = Inr t'" by (rule r(1))
    show "index_of ''Age_Group'' (col_names t') = Some j" by (rule r(2))
    show "length (rows t') = length (rows t)" by (rule len)
    show "(rows t' ! n ! j = Str l) = (\<exists>x. rows t ! n ! i = Num x \<and> in_age_bin x l)"
      if "n < length (rows t)" for n l by (rule a[OF that])
    show "\<exists>!l. rows t' ! n ! j = Str l"
      if "n < length (rows t)" "rows t ! n ! i = Num x" "0 \<le> x" "x < 100" for n x
      by (rule b[OF that])
    show "rows t' ! n ! j = NA"
      if "n < length (rows t)" "rows t ! n ! i = Num x" "100 \<le> x" for n x
      by (rule c[OF that])
  qed
qed


theorem age_group_bins_witness:
  "wf_table ages_example \<and> index_of ''Age'' (col_names ages_example) = Some 0 \<and>
   dtype_at ages_example 0 \<noteq> Categorical \<and>
   (\<exists>t' j. feature_engineering fmt_digits ages_example = Inr t' \<and>
      index_of ''Age_Group'' (col_names t') = Some j \<and>
      rows t' ! 0 ! j = Str ''<18'' \<and> rows t' ! 4 ! j = NA)"
proof -
  have h1: "wf_table ages_example"
    by (simp add: ages_example_def wf_table_def row_ok_def cell_ok_def int_range_def col_names_def)
  have h2: "index_of ''Age'' (col_names ages_example) = Some 0"
    by (simp add: ages_example_def)
  have h3: "dtype_at ages_example 0 \<noteq> Categorical"
    by (simp add: ages_example_def dtype_at_def)
  have h4: "numeric_column ages_example ''Purchase Amount (USD)''"
    by (simp add: ages_example_def numeric_column_def)
  have h5: "numeric_column ages_example ''Previous Purchases''"
    by (simp add: ages_example_def numeric_column_def)
  have n0: "rows ages_example ! 0 ! 0 = Num 17" "0 < length (rows ages_example)"
    by (simp_all add: ages_example_def)
  have n4: "rows ages_example ! 4 ! 0 = Num 100" "4 < length (rows ages_example)"
    by (simp_all add: ages_example_def)
  obtain t' j where r: "feature_engineering fmt_digits ages_example = Inr t'"
      "index_of ''Age_Group'' (col_names t') = Some j"
      "\<forall>n<length (rows ages_example). \<forall>l.
         (rows t' ! n ! j = Str l) = (\<exists>x. rows ages_example ! n ! 0 = Num x \<and> in_age_bin x l)"
      "\<forall>n<length (rows ages_example). \<forall>x. rows ages_example ! n ! 0 = Num x \<longrightarrow> 100 \<le> x \<longrightarrow>
         rows t' ! n ! j = NA"
    using age_group_bins[OF h1 h2 h3 h4 h5, of fmt_digits] by blast
  have "in_age_bin 17 ''<18''" by (simp add: in_age_bin_iff)
  then have a: "rows t' ! 0 ! j = Str ''<18''" using r(3) n0 by simp
  have b: "rows t' ! 4 ! j = NA" using r(4) n4 by simp
  show ?thesis
    by (intro conjI exI) (rule h1 h2 h3 r(1) r(2) a b)+
qed


text \<open>The claim as stated gives the age 100 the label \<open>65+\<close>; the code gives it no
  label.\<close>

lemma cut_age_100: "cut_cell age_bins age_labels False (Num 100) = NA"
  by (simp add: cut_cell_def cut_code_age)

lemma add_age_group_100: "add_age_group \<lparr>columns = [(''Age'', Integer 8)], rows = [[Num 100]]\<rparr> =
   Inr \<lparr>columns = [(''Age'', Integer 8), (''Age_Group'', Categorical),
                     (''Age_Group_Ordinal'', Integer 8)],
          rows = [[Num 100, NA, Num (- 1)]]\<rparr>"
  by (simp add: add_age_group_def set_column_def has_str_def is_str_def column_at_def cut_age_100 cat_codes_def)

theorem age_100_counterexample:
  "feature_engineering fmt_digits \<lparr>columns = [(''Age'', Integer 8)], rows = [[Num 100]]\<rparr> =
     Inr \<lparr>columns = [(''Age'', Integer 8), (''Age_Group'', Categorical),
                     (''Age_Group_Ordinal'', Integer 8)],
          rows = [[Num 100, NA, Num (- 1)]]\<rparr>"
  by (simp add: feature_engineering_def bind_err_def add_age_group_100 add_purchase_category_def
      add_discount_or_promo_def add_is_repeat_customer_def add_season_category_def)

section \<open>Loading (C9)\<close>

text \<open>
  Claim C9 (amended). For a path that does not exist \<open>load_data\<close> fails with
  \<open>FileNotFoundError\<close> (the spec's NotFound), logged as "File not found" and raised
  again. For every other failure, the parser raising \<open>e\<close> on the text of the file,
  \<open>load_data\<close> logs "Error loading data" and fails with that same exception \<open>e\<close>:
  both handlers end in a bare \<open>raise\<close>, which raises the caught exception again and
  wraps it in nothing. A frame is returned only when the file exists and the parser
  returned that frame, and then the only log line is the shape: no fallback, no partial
  result.
\<close>

theorem load_data_failures:
  "(fs file_path = None \<longrightarrow>
      load_data parse fs file_path = (Inl FileNotFoundError, [FileNotFound file_path])) \<and>
   (\<forall>text e. fs file_path = Some text \<longrightarrow> parse text = Inl e \<longrightarrow>
      load_data parse fs file_path =
        (Inl e, [if e = FileNotFoundError then FileNotFound file_path else ErrorLoading e])) \<and>
   (\<forall>df. (fst (load_data parse fs file_path) = Inr df) =
      (\<exists>text. fs file_path = Some text \<and> parse text = Inr df)) \<and>
   (\<forall>df. fst (load_data parse fs file_path) = Inr df \<longrightarrow>
      snd (load_data parse fs file_path) = [LoadedShape (length (rows df)) (length (columns df))])"
proof (intro conjI allI impI)
  assume "fs file_path = None"
  then have "read_csv parse fs file_path = Inl FileNotFoundError"
    by (simp add: read_csv_def)
  then show "load_data parse fs file_path = (Inl FileNotFoundError, [FileNotFound file_path])"
    by (simp add: load_data_def)
next
  fix content e
  assume "fs file_path = Some content" and "parse content = Inl e"
  then have r: "read_csv parse fs file_path = Inl e"
    by (simp add: read_csv_def)
  show "load_data parse fs file_path =
      (Inl e, [if e = FileNotFoundError then FileNotFound file_path else ErrorLoading e])"
    unfolding load_data_def r by (cases e) simp_all
next
  fix df
  have a: "(fst (load_data parse fs file_path) = Inr df) = (read_csv parse fs file_path = Inr df)"
    by (simp add: load_data_def split: sum.splits error.splits)
  have b: "(read_csv parse fs file_path = Inr df) =
      (\<exists>text. fs file_path = Some text \<and> parse text = Inr df)"
    by (cases "fs file_path") (simp_all add: read_csv_def)
  show "(fst (load_data parse fs file_path) = Inr df) =
      (\<exists>text. fs file_path = Some text \<and> parse text = Inr df)"
    using a b by simp
next
  fix df
  assume "fst (load_data parse fs file_path) = Inr df"
  then have "read_csv parse fs file_path = Inr df"
    by (simp add: load_data_def split: sum.splits error.splits)
  then show "snd (load_data parse fs file_path) =
      [LoadedShape (length (rows df)) (length (columns df))]"
    by (simp add: load_data_def)
qed

theorem load_data_failures_witness:
  "files_example ''missing.csv'' = None \<and>
   load_data parse_bad_age files_example ''missing.csv'' =
     (Inl FileNotFoundError, [FileNotFound ''missing.csv'']) \<and>
   files_example ''shopping_behavior.csv'' = Some bad_age_text \<and>
   parse_bad_age bad_age_text = Inl ValueError \<and>
   load_data parse_bad_age files_example ''shopping_behavior.csv'' =
     (Inl ValueError, [ErrorLoading ValueError])"
proof -
  have h1: "files_example ''missing.csv'' = None" by (simp add: files_example_def)
  have h2: "files_example ''shopping_behavior.csv'' = Some bad_age_text"
    by (simp add: files_example_def)
  have h3: "parse_bad_age bad_age_text = Inl ValueError"
    by (simp add: parse_bad_age_def)
  have a: "load_data parse_bad_age files_example ''missing.csv'' =
     (Inl FileNotFoundError, [FileNotFound ''missing.csv''])"
    using load_data_failures[of files_example "''missing.csv''" parse_bad_age] h1 by blast
  have "load_data parse_bad_age files_example ''shopping_behavior.csv'' =
     (Inl ValueError, [if ValueError = FileNotFoundError
        then FileNotFound ''shopping_behavior.csv'' else ErrorLoading ValueError])"
    using load_data_failures[of files_example "''shopping_behavior.csv''" parse_bad_age] h2 h3
    by blast
  then have b: "load_data parse_bad_age files_example ''shopping_behavior.csv'' =
     (Inl ValueError, [ErrorLoading ValueError])"
    by simp
  show ?thesis by (intro conjI) (rule h1 h2 h3 a b)+
qed

text \<open>
  The claim as the spec words it has the failure of the second kind come out as a load
  error that wraps the parse failure. On the file of the example, whose Age field is
  not an integer, the caller receives the \<open>ValueError\<close> of the parser itself, not a
  \<open>LoadError\<close> around it.
\<close>

theorem parse_failure_not_wrapped_counterexample:
  "fst (load_data parse_bad_age files_example ''shopping_behavior.csv'') = Inl ValueError \<and>
   fst (load_data parse_bad_age files_example ''shopping_behavior.csv'') \<noteq>
     Inl (LoadError ''invalid literal for int() with base 10'')"
  by (simp add: load_data_def read_csv_def files_example_def parse_bad_age_def)

section \<open>The input frame is never changed (C10)\<close>

text \<open>The run on the store computes the value of the pure function, changes no frame that
  existed before the call, and returns a reference that did not exist before.\<close>

lemma outliers_loop_st_sound:
  assumes "r < length s" "outliers_loop_st m k a cols s r = (res, s')"
  shows "length s \<le> length s' \<and> (\<forall>q<length s. q \<noteq> r \<longrightarrow> s' ! q = s ! q) \<and>
         (\<forall>e. res = Inl e \<longrightarrow> outliers_loop m k a cols (s ! r) = Inl e) \<and>
         (\<forall>r'. res = Inr r' \<longrightarrow> r' < length s' \<and> (r' = r \<or> length s \<le> r') \<and>
            outliers_loop m k a cols (s ! r) = Inr (s' ! r'))"
  using assms
proof (induction cols arbitrary: s r)
  case Nil
  then show ?case by auto
next
  case (Cons c cols)
  show ?case
  proof (cases "outlier_step m k a c (s ! r)")
    case (Inl e)
    then show ?thesis using Cons.prems by auto
  next
    case (Inr st)
    show ?thesis
    proof (cases st)
      case Keep
      then show ?thesis using Inr Cons.prems Cons.IH[of r s] by simp
    next
      case (Mutate rs)
      define s1 where "s1 = s[r := (s ! r)\<lparr>rows := rs\<rparr>]"
      have run: "outliers_loop_st m k a cols s1 r = (res, s')"
        using Inr Mutate Cons.prems(2) by (simp add: s1_def)
      have r1: "r < length s1" using Cons.prems(1) by (simp add: s1_def)
      have s1r: "s1 ! r = (s ! r)\<lparr>rows := rs\<rparr>" using Cons.prems(1) by (simp add: s1_def)
      have pure: "outliers_loop m k a (c # cols) (s ! r) = outliers_loop m k a cols (s1 ! r)"
        using Inr Mutate s1r by simp
      have len: "length s1 = length s" by (simp add: s1_def)
      have old: "s1 ! q = s ! q" if "q \<noteq> r" for q using that by (simp add: s1_def)
      show ?thesis using Cons.IH[OF r1 run] pure len old by auto
    next
      case (MutateThenRaise rs e)
      then show ?thesis using Inr Cons.prems by auto
    next
      case (Rebind rs)
      define s1 where "s1 = s @ [(s ! r)\<lparr>rows := rs\<rparr>]"
      have run: "outliers_loop_st m k a cols s1 (length s) = (res, s')"
        using Inr Rebind Cons.prems(2) by (simp add: s1_def)
      have r1: "length s < length s1" by (simp add: s1_def)
      have s1r: "s1 ! length s = (s ! r)\<lparr>rows := rs\<rparr>" by (simp add: s1_def)
      have pure: "outliers_loop m k a (c # cols) (s ! r) = outliers_loop m k a cols (s1 ! length s)"
        using Inr Rebind s1r by simp
      have len: "length s1 = Suc (length s)" by (simp add: s1_def)
      have old: "s1 ! q = s ! q" if "q < length s" for q using that by (simp add: s1_def nth_append)
      have ih: "length s1 \<le> length s' \<and> (\<forall>q<length s1. q \<noteq> length s \<longrightarrow> s' ! q = s1 ! q) \<and>
         (\<forall>e. res = Inl e \<longrightarrow> outliers_loop m k a cols (s1 ! length s) = Inl e) \<and>
         (\<forall>r'. res = Inr r' \<longrightarrow> r' < length s' \<and> (r' = length s \<or> length s1 \<le> r') \<and>
            outliers_loop m k a cols (s1 ! length s) = Inr (s' ! r'))"
        by (rule Cons.IH[OF r1 run])
      have a: "length s \<le> length s'" using ih len by simp
      have b: "s' ! q = s ! q" if "q < length s" "q \<noteq> r" for q
        using ih that old[OF that(1)] len by auto
      have c: "outliers_loop m k a (c # cols) (s ! r) = Inl e" if "res = Inl e" for e
        using ih that pure by simp
      have d: "r' < length s' \<and> (r' = r \<or> length s \<le> r') \<and>
            outliers_loop m k a (c # cols) (s ! r) = Inr (s' ! r')" if "res = Inr r'" for r'
        using ih that pure len by auto
      show ?thesis using a b c d by blast
    qed
  qed
qed

lemma outliers_loop_other_method:
  "m \<noteq> ''iqr'' \<Longrightarrow> outliers_loop m k a cols t = Inr t"
  by (induction cols) (simp_all add: outlier_step_def split: option.splits)


lemma take_old:
  assumes "length s \<le> length s'" "\<forall>q<length s. s' ! q = s ! q"
  shows "take (length s) s' = s"
  using assms by (intro nth_equalityI) auto

lemma detect_st_sound:
  assumes "df < length s"
    and "detect_and_handle_outliers_st s df cols m k a = (res, s')"
  shows "take (length s) s' = s \<and>
         (\<forall>e. res = Inl e \<longrightarrow> detect_and_handle_outliers (s ! df) cols m k a = Inl e) \<and>
         (\<forall>r. res = Inr r \<longrightarrow> length s \<le> r \<and> r < length s' \<and>
            detect_and_handle_outliers (s ! df) cols m k a = Inr (s' ! r))"
proof -
  define s0 where "s0 = s @ [s ! df]"
  have run: "outliers_loop_st m k a cols s0 (length s) = (res, s')"
    using assms(2) by (simp add: detect_and_handle_outliers_st_def df_copy_def s0_def)
  have r0: "length s < length s0" by (simp add: s0_def)
  have v: "s0 ! length s = s ! df" by (simp add: s0_def)
  have len: "length s0 = Suc (length s)" by (simp add: s0_def)
  have old: "s0 ! q = s ! q" if "q < length s" for q using that by (simp add: s0_def nth_append)
  have ih: "length s0 \<le> length s' \<and> (\<forall>q<length s0. q \<noteq> length s \<longrightarrow> s' ! q = s0 ! q) \<and>
         (\<forall>e. res = Inl e \<longrightarrow> outliers_loop m k a cols (s0 ! length s) = Inl e) \<and>
         (\<forall>r'. res = Inr r' \<longrightarrow> r' < length s' \<and> (r' = length s \<or> length s0 \<le> r') \<and>
            outliers_loop m k a cols (s0 ! length s) = Inr (s' ! r'))"
    by (rule outliers_loop_st_sound[OF r0 run])
  have a: "take (length s) s' = s"
  proof (rule take_old)
    show "length s \<le> length s'" using ih len by simp
    show "\<forall>q<length s. s' ! q = s ! q" using ih len old by auto
  qed
  have b: "detect_and_handle_outliers (s ! df) cols m k a = Inl e" if "res = Inl e" for e
    using ih that v by (simp add: detect_and_handle_outliers_def)
  have c: "length s \<le> r \<and> r < length s' \<and>
            detect_and_handle_outliers (s ! df) cols m k a = Inr (s' ! r)" if "res = Inr r" for r
    using ih that v len by (auto simp: detect_and_handle_outliers_def)
  show ?thesis using a b c by blast
qed

lemma feature_engineering_st_sound:
  assumes "df < length s"
    and "feature_engineering_st fmt s df = (res, s')"
  shows "take (length s) s' = s \<and>
         (\<forall>e. res = Inl e \<longrightarrow> feature_engineering fmt (s ! df) = Inl e) \<and>
         (\<forall>r. res = Inr r \<longrightarrow> length s \<le> r \<and> r < length s' \<and>
            feature_engineering fmt (s ! df) = Inr (s' ! r))"
  using assms(2)
  by (auto simp: feature_engineering_st_def feature_engineering_def df_copy_def bind_err_def
      Let_def split: sum.splits)


text \<open>The example of the capped purchase amount, evaluated.\<close>

lemma quantile_amounts:
  "quantile (1 / 4) [40, 50, 60, 70, 500] = Some 50"
  "quantile (3 / 4) [40, 50, 60, 70, 500] = Some 70"
  by (simp_all add: quantile_def Let_def)

lemma iqr_bounds_amounts: "iqr_bounds (3 / 2) [40, 50, 60, 70, 500] = Some (20, 100)"
  by (simp add: iqr_bounds_def quantile_amounts)

lemma outlier_step_amounts:
  "outlier_step ''iqr'' (3 / 2) ''cap'' ''Purchase Amount (USD)'' amounts_example =
     Inr (Mutate (rows amounts_capped))"
  by (simp add: outlier_step_def amounts_example_def amounts_capped_def has_str_def is_str_def
      column_at_def iqr_bounds_amounts is_outlier_def cap_below_def cap_above_def
      can_hold_element_def)

lemma detect_amounts:
  "detect_and_handle_outliers amounts_example [''Purchase Amount (USD)''] ''iqr'' (3 / 2) ''cap'' =
     Inr amounts_capped"
  by (simp add: detect_and_handle_outliers_def outlier_step_amounts)
     (simp add: amounts_example_def amounts_capped_def)

lemma detect_st_amounts:
  "detect_and_handle_outliers_st [amounts_example] 0 [''Purchase Amount (USD)''] ''iqr'' (3 / 2) ''cap'' =
     (Inr 1, [amounts_example, amounts_capped])"
  by (simp add: detect_and_handle_outliers_st_def df_copy_def outlier_step_amounts)
     (simp add: amounts_example_def amounts_capped_def)


text \<open>
  Claim C10. In a store \<open>s\<close> that holds the caller's frame at \<open>df\<close>, a call of
  \<open>detect_and_handle_outliers\<close> or of \<open>feature_engineering\<close> leaves every frame of
  \<open>s\<close> as it was (\<open>take (length s) s' = s\<close>), whether it returns or raises; what it
  returns is a frame allocated by the call (\<open>length s \<le> r\<close>) that carries the result; and
  for a method other than \<open>iqr\<close> the outlier handler returns a new frame equal to its
  input.
\<close>

theorem frames_not_mutated:
  assumes "df < length s"
  shows "(\<forall>res s'. detect_and_handle_outliers_st s df cols method k action = (res, s') \<longrightarrow>
            take (length s) s' = s \<and>
            (\<forall>r. res = Inr r \<longrightarrow> length s \<le> r \<and> r < length s' \<and>
               detect_and_handle_outliers (s ! df) cols method k action = Inr (s' ! r))) \<and>
         (\<forall>res s'. feature_engineering_st fmt s df = (res, s') \<longrightarrow>
            take (length s) s' = s \<and>
            (\<forall>r. res = Inr r \<longrightarrow> length s \<le> r \<and> r < length s' \<and>
               feature_engineering fmt (s ! df) = Inr (s' ! r))) \<and>
         (method \<noteq> ''iqr'' \<longrightarrow>
            (\<exists>r s'. detect_and_handle_outliers_st s df cols method k action = (Inr r, s') \<and>
               s' ! r = s ! df))"
proof (intro conjI allI impI)
  fix res s'
  assume run: "detect_and_handle_outliers_st s df cols method k action = (res, s')"
  show "take (length s) s' = s" using detect_st_sound[OF assms run] by blast
  show "length s \<le> r" "r < length s'"
    "detect_and_handle_outliers (s ! df) cols method k action = Inr (s' ! r)"
    if "res = Inr r" for r
    using detect_st_sound[OF assms run] that by blast+
next
  fix res s'
  assume run: "feature_engineering_st fmt s df = (res, s')"
  show "take (length s) s' = s" using feature_engineering_st_sound[OF assms run] by blast
  show "length s \<le> r" "r < length s'" "feature_engineering fmt (s ! df) = Inr (s' ! r)"
    if "res = Inr r" for r
    using feature_engineering_st_sound[OF assms run] that by blast+
next
  assume m: "method \<noteq> ''iqr''"
  obtain res s' where run: "detect_and_handle_outliers_st s df cols method k action = (res, s')"
    by (cases "detect_and_handle_outliers_st s df cols method k action") auto
  have pure: "detect_and_handle_outliers (s ! df) cols method k action = Inr (s ! df)"
    using outliers_loop_other_method[OF m] by (simp add: detect_and_handle_outliers_def)
  obtain r where r: "res = Inr r"
    using detect_st_sound[OF assms run] pure by (cases res) auto
  then have "s' ! r = s ! df" using detect_st_sound[OF assms run] pure by auto
  then show "\<exists>r s'. detect_and_handle_outliers_st s df cols method k action = (Inr r, s') \<and>
               s' ! r = s ! df" using run r by blast
qed

theorem frames_not_mutated_witness:
  "(0::nat) < length [amounts_example] \<and>
   detect_and_handle_outliers_st [amounts_example] 0 [''Purchase Amount (USD)''] ''iqr'' (3 / 2) ''cap'' =
     (Inr 1, [amounts_example, amounts_capped]) \<and>
   take (length [amounts_example]) [amounts_example, amounts_capped] = [amounts_example] \<and>
   detect_and_handle_outliers ([amounts_example] ! 0) [''Purchase Amount (USD)''] ''iqr'' (3 / 2) ''cap'' =
     Inr ([amounts_example, amounts_capped] ! 1) \<and>
   ''zscore'' \<noteq> ''iqr'' \<and>
   (\<exists>r s'. detect_and_handle_outliers_st [amounts_example] 0 [''Purchase Amount (USD)'']
              ''zscore'' (3 / 2) ''cap'' = (Inr r, s') \<and> s' ! r = [amounts_example] ! 0)"
proof -
  have h: "(0::nat) < length [amounts_example]" by simp
  have z: "''zscore'' \<noteq> ''iqr''" by simp
  note t1 = frames_not_mutated[OF h, of "[''Purchase Amount (USD)'']" "''iqr''" "3 / 2" "''cap''" fmt_digits]
  note t2 = frames_not_mutated[OF h, of "[''Purchase Amount (USD)'']" "''zscore''" "3 / 2" "''cap''" fmt_digits]
  have a: "take (length [amounts_example]) [amounts_example, amounts_capped] = [amounts_example]"
    using t1 detect_st_amounts by blast
  have b: "detect_and_handle_outliers ([amounts_example] ! 0) [''Purchase Amount (USD)''] ''iqr'' (3 / 2) ''cap'' =
     Inr ([amounts_example, amounts_capped] ! 1)"
    using t1 detect_st_amounts by blast
  have c: "\<exists>r s'. detect_and_handle_outliers_st [amounts_example] 0 [''Purchase Amount (USD)'']
              ''zscore'' (3 / 2) ''cap'' = (Inr r, s') \<and> s' ! r = [amounts_example] ! 0"
    using t2 z by blast
  show ?thesis by (intro conjI) (rule h detect_st_amounts a b z c)+
qed

section \<open>Capping (C5)\<close>

text \<open>The fences of the example amounts.\<close>

lemma quantile_amounts_75:
  "quantile (1 / 4) [40, 50, 60, 75, 500] = Some 50"
  "quantile (3 / 4) [40, 50, 60, 75, 500] = Some 75"
  by (simp_all add: quantile_def Let_def)

lemma iqr_bounds_amounts_75: "iqr_bounds (3 / 2) [40, 50, 60, 75, 500] = Some (25 / 2, 225 / 2)"
  by (simp add: iqr_bounds_def quantile_amounts_75)

lemma floor_lower_fence: "\<lfloor>25 / 2 :: rat\<rfloor> = 12"
  by (rule floor_unique) simp_all

lemma int16_cannot_hold_lower_fence: "\<not> can_hold_element (Integer 16) (25 / 2)"
  by (simp add: can_hold_element_def int_range_def floor_lower_fence)

lemma outlier_step_amounts_int16:
  "outlier_step ''iqr'' (3 / 2) ''cap'' ''Purchase Amount (USD)'' amounts_int16_example =
     Inl TypeError"
  using int16_cannot_hold_lower_fence
  by (simp add: outlier_step_def amounts_int16_example_def has_str_def is_str_def
      column_at_def iqr_bounds_amounts_75 is_outlier_def)

lemma outlier_step_amounts_float64:
  "outlier_step ''iqr'' (3 / 2) ''cap'' ''Purchase Amount (USD)'' amounts_float64_example =
     Inr (Mutate (rows amounts_float64_capped))"
  by (simp add: outlier_step_def amounts_float64_example_def amounts_float64_capped_def
      has_str_def is_str_def column_at_def iqr_bounds_amounts_75 is_outlier_def cap_below_def
      cap_above_def can_hold_element_def)

text \<open>
  Claim C5. With method \<open>iqr\<close> and action \<open>cap\<close> the claim has the outlier handler
  return, for every frame, a frame of as many rows in which the values of a target column
  outside the fences \<open>Q1 - k IQR\<close> and \<open>Q3 + k IQR\<close> are set to the fence. The code
  does so for a float column: the amount 500 of the example becomes the upper fence
  112.5. For the same amounts in an \<open>int16\<close> column, the dtype \<open>load_data\<close> gives the
  purchase amount, the assignment of the fence 12.5 to the column raises \<open>TypeError\<close>
  and the call returns no frame.
\<close>

theorem cap_on_integer_column_raises:
  "detect_and_handle_outliers amounts_int16_example [''Purchase Amount (USD)'']
       ''iqr'' (3 / 2) ''cap'' = Inl TypeError \<and>
   detect_and_handle_outliers amounts_float64_example [''Purchase Amount (USD)'']
       ''iqr'' (3 / 2) ''cap'' = Inr amounts_float64_capped"
proof
  show "detect_and_handle_outliers amounts_int16_example [''Purchase Amount (USD)'']
       ''iqr'' (3 / 2) ''cap'' = Inl TypeError"
    by (simp add: detect_and_handle_outliers_def outlier_step_amounts_int16)
  show "detect_and_handle_outliers amounts_float64_example [''Purchase Amount (USD)'']
       ''iqr'' (3 / 2) ''cap'' = Inr amounts_float64_capped"
    by (simp add: detect_and_handle_outliers_def outlier_step_amounts_float64)
       (simp add: amounts_float64_example_def amounts_float64_capped_def)
qed

section \<open>Absent and non-target columns (C8)\<close>

text \<open>
  Claim C8, as the code has it. A listed column that the frame does not have is skipped
  without an error: the call behaves as the call with the present names only, and returns
  the input when no listed name is present. The columns of the result are those of the
  input. Under every action but \<open>remove\<close> the number of rows is the same and every
  non-target column is unchanged. Under \<open>remove\<close> no cell is changed at all, but rows
  are dropped: the rows of the result are a subsequence of the input rows, so a non-target
  column loses the values of the removed rows.
\<close>

theorem absent_skipped_others_kept:
  "detect_and_handle_outliers t cols method k action =
     detect_and_handle_outliers t (filter (\<lambda>c. c \<in> set (col_names t)) cols) method k action \<and>
   (set cols \<inter> set (col_names t) = {} \<longrightarrow>
      detect_and_handle_outliers t cols method k action = Inr t) \<and>
   (\<forall>t'. detect_and_handle_outliers t cols method k action = Inr t' \<longrightarrow>
      columns t' = columns t \<and>
      (action = ''remove'' \<longrightarrow> subseq (rows t') (rows t)) \<and>
      (action \<noteq> ''remove'' \<longrightarrow> length (rows t') = length (rows t) \<and>
         (\<forall>j<length (columns t). col_names t ! j \<notin> set cols \<longrightarrow>
            column_at j (rows t') = column_at j (rows t))))"
proof (intro conjI allI impI)
  show skip: "detect_and_handle_outliers t cols method k action =
     detect_and_handle_outliers t (filter (\<lambda>c. c \<in> set (col_names t)) cols) method k action"
    unfolding detect_and_handle_outliers_def by (rule outliers_loop_skips_absent)
  show "detect_and_handle_outliers t cols method k action = Inr t"
    if "set cols \<inter> set (col_names t) = {}"
  proof -
    have "filter (\<lambda>c. c \<in> set (col_names t)) cols = []" using that by (auto simp: filter_empty_conv)
    then show ?thesis using skip by (simp add: detect_and_handle_outliers_def)
  qed
next
  fix t' assume run: "detect_and_handle_outliers t cols method k action = Inr t'"
  note fr = outliers_loop_frame[OF run[unfolded detect_and_handle_outliers_def]]
  show "columns t' = columns t" using fr by blast
  show "subseq (rows t') (rows t)" if "action = ''remove''" using fr that by blast
  show "length (rows t') = length (rows t)" if "action \<noteq> ''remove''" using fr that by blast
  show "column_at j (rows t') = column_at j (rows t)"
    if "action \<noteq> ''remove''" "j < length (columns t)" "col_names t ! j \<notin> set cols" for j
    using fr that by blast
qed

theorem absent_skipped_others_kept_witness:
  "detect_and_handle_outliers amounts_example [''Purchase Amount (USD)'', ''Income''] ''iqr'' (3 / 2) ''cap'' =
     Inr amounts_capped \<and>
   ''cap'' \<noteq> ''remove'' \<and> 1 < length (columns amounts_example) \<and>
   col_names amounts_example ! 1 \<notin> set [''Purchase Amount (USD)'', ''Income''] \<and>
   column_at 1 (rows amounts_capped) = column_at 1 (rows amounts_example)"
proof -
  note th = absent_skipped_others_kept[of amounts_example "[''Purchase Amount (USD)'', ''Income'']"
      "''iqr''" "3 / 2" "''cap''"]
  have f: "filter (\<lambda>c. c \<in> set (col_names amounts_example)) [''Purchase Amount (USD)'', ''Income''] =
      [''Purchase Amount (USD)'']"
    by (simp add: amounts_example_def)
  have run: "detect_and_handle_outliers amounts_example [''Purchase Amount (USD)'', ''Income''] ''iqr'' (3 / 2) ''cap'' =
     Inr amounts_capped"
    using th f detect_amounts by simp
  have h1: "''cap'' \<noteq> ''remove''" by simp
  have h2: "1 < length (columns amounts_example)" by (simp add: amounts_example_def)
  have h3: "col_names amounts_example ! 1 \<notin> set [''Purchase Amount (USD)'', ''Income'']"
    by (simp add: amounts_example_def)
  have a: "column_at 1 (rows amounts_capped) = column_at 1 (rows amounts_example)"
    using th run h1 h2 h3 by blast
  show ?thesis by (intro conjI) (rule run h1 h2 h3 a)+
qed

text \<open>The claim as stated leaves every non-target column completely unchanged; removing the
  row of the outlier shortens the column \<open>Gender\<close>.\<close>

lemma outlier_step_amounts_remove:
  "outlier_step ''iqr'' (3 / 2) ''remove'' ''Purchase Amount (USD)'' amounts_example =
     Inr (Rebind (rows amounts_removed))"
  by (simp add: outlier_step_def amounts_example_def amounts_removed_def has_str_def is_str_def
      column_at_def iqr_bounds_amounts is_outlier_def keeps_def)

theorem remove_shortens_other_columns_counterexample:
  "detect_and_handle_outliers amounts_example [''Purchase Amount (USD)''] ''iqr'' (3 / 2) ''remove'' =
     Inr amounts_removed \<and>
   col_names amounts_example ! 1 = ''Gender'' \<and>
   column_at 1 (rows amounts_example) =
     [Str ''Male'', Str ''Female'', Str ''Male'', Str ''Female'', Str ''Male''] \<and>
   column_at 1 (rows amounts_removed) = [Str ''Male'', Str ''Female'', Str ''Male'', Str ''Female'']"
proof -
  have "detect_and_handle_outliers amounts_example [''Purchase Amount (USD)''] ''iqr'' (3 / 2) ''remove'' =
     Inr amounts_removed"
    by (simp add: detect_and_handle_outliers_def outlier_step_amounts_remove)
       (simp add: amounts_example_def amounts_removed_def)
  then show ?thesis
    by (simp add: amounts_example_def amounts_removed_def column_at_def)
qed

section \<open>Removing outliers (C2)\<close>

text \<open>
  Claim C2 promises, for a target column with a missing value, the rows that survive the
  filter, the bounds being computed over the non-missing values. The code computes
  \<open>mask\<close> on \<open>df_out[col].dropna()\<close> and then indexes the whole frame with it: the rows
  with a missing value have no entry in \<open>mask\<close>, and pandas raises \<open>IndexingError\<close>
  instead of returning the frame without the outlier.
\<close>

lemma quantile_ratings:
  "quantile (1 / 4) [1, 2, 3, 4, 100] = Some 2"
  "quantile (3 / 4) [1, 2, 3, 4, 100] = Some 4"
  by (simp_all add: quantile_def Let_def)

theorem remove_with_missing_value_raises:
  "detect_and_handle_outliers ratings_example [''Review Rating''] ''iqr'' (3 / 2) ''remove'' =
     Inl IndexingError"
  by (simp add: detect_and_handle_outliers_def outlier_step_def ratings_example_def has_str_def
      is_str_def column_at_def iqr_bounds_def quantile_ratings is_outlier_def)

section \<open>Duplicates removed, missing values filled (C3)\<close>

text \<open>
  Claim C3, as the code has it. For a well-formed frame without an entirely missing
  categorical column, \<open>clean_data\<close> returns a frame with the same columns whose rows are
  the rows of the input without exact duplicates (the first of equal rows is kept), with
  the missing values filled: every column is the imputed column of the rows without
  duplicates, median for a numeric and mode for a categorical column. No missing value
  remains in a column that is not entirely missing. A numeric column that is entirely
  missing has no median and stays entirely missing.
\<close>

theorem clean_data_dedups_and_imputes:
  assumes "wf_table t"
    and "\<forall>i<length (columns t). dtype_at t i = Categorical \<longrightarrow>
           \<not> entirely_missing (column_at i (rows t))"
  shows "\<exists>t'. clean_data t = Inr t' \<and> columns t' = columns t \<and>
           distinct (drop_duplicates (rows t)) \<and>
           set (drop_duplicates (rows t)) = set (rows t) \<and>
           length (rows t') = length (drop_duplicates (rows t)) \<and>
           (\<forall>i<length (columns t).
              column_at i (rows t') =
                impute (dtype_at t i) (column_at i (drop_duplicates (rows t)))) \<and>
           (\<forall>i<length (columns t). \<not> entirely_missing (column_at i (rows t)) \<longrightarrow>
              NA \<notin> set (column_at i (rows t')))"
proof -
  from clean_data_result[OF assms(1)] obtain rs' where r:
      "clean_data t = Inr (t\<lparr>rows := rs'\<rparr>)"
      "length rs' = length (drop_duplicates (rows t))"
      "\<forall>i<length (columns t).
         column_at i rs' = impute (dtype_at t i) (column_at i (drop_duplicates (rows t)))"
  proof
    assume "clean_data t = Inl KeyError \<and>
        (\<exists>i<length (columns t). dtype_at t i = Categorical \<and>
           mode_fails (column_at i (drop_duplicates (rows t))))"
    then obtain i where i: "i < length (columns t)" "dtype_at t i = Categorical"
        "mode_fails (column_at i (drop_duplicates (rows t)))" by blast
    then have False using assms(2) mode_fails_typed[OF assms(1) i(1,2)] by simp
    then show ?thesis ..
  next
    assume "\<exists>rs'. clean_data t = Inr (t\<lparr>rows := rs'\<rparr>) \<and>
        length rs' = length (drop_duplicates (rows t)) \<and>
        (\<forall>i<length (columns t). dtype_at t i = Categorical \<longrightarrow>
           \<not> mode_fails (column_at i (drop_duplicates (rows t)))) \<and>
        (\<forall>i<length (columns t).
           column_at i rs' = impute (dtype_at t i) (column_at i (drop_duplicates (rows t))))"
    then show ?thesis using that by blast
  qed
  have full: "NA \<notin> set (column_at i rs')"
    if i: "i < length (columns t)" "\<not> entirely_missing (column_at i (rows t))" for i
  proof -
    have eq: "column_at i rs' = impute (dtype_at t i) (column_at i (drop_duplicates (rows t)))"
      using r(3) i(1) by simp
    from not_entirely_missing[OF i(2)] show ?thesis
    proof
      assume "column_at i (rows t) = []"
      then have "set (column_at i (drop_duplicates (rows t))) = {}"
        using set_column_at_drop_duplicates[of i "rows t"] by simp
      then show ?thesis using eq by simp
    next
      assume "\<exists>v\<in>set (column_at i (rows t)). v \<noteq> NA"
      then obtain v where v: "v \<in> set (column_at i (rows t))" "v \<noteq> NA" by blast
      have "v \<in> set (column_at i (drop_duplicates (rows t)))"
        using v(1) set_column_at_drop_duplicates[of i "rows t"] by simp
      from impute_fills[OF this v(2) typed_column[OF assms(1) i(1) v(1)]]
      show ?thesis using eq by simp
    qed
  qed
  show ?thesis
  proof (intro exI[of _ "t\<lparr>rows := rs'\<rparr>"] conjI allI impI)
    show "clean_data t = Inr (t\<lparr>rows := rs'\<rparr>)" by (rule r(1))
    show "columns (t\<lparr>rows := rs'\<rparr>) = columns t" by simp
    show "distinct (drop_duplicates (rows t))" by simp
    show "set (drop_duplicates (rows t)) = set (rows t)" by simp
    show "length (rows (t\<lparr>rows := rs'\<rparr>)) = length (drop_duplicates (rows t))" using r(2) by simp
    show "column_at i (rows (t\<lparr>rows := rs'\<rparr>)) =
        impute (dtype_at t i) (column_at i (drop_duplicates (rows t)))"
      if "i < length (columns t)" for i using r(3) that by simp
    show "NA \<notin> set (column_at i (rows (t\<lparr>rows := rs'\<rparr>)))"
      if "i < length (columns t)" "\<not> entirely_missing (column_at i (rows t))" for i
      using full[OF that] by simp
  qed
qed


theorem clean_data_dedups_and_imputes_witness:
  "wf_table customers_example \<and>
   dtype_at customers_example 0 = Numeric \<and>
   \<not> entirely_missing (column_at 0 (rows customers_example)) \<and>
   \<not> entirely_missing (column_at 1 (rows customers_example)) \<and>
   clean_data customers_example = Inr customers_cleaned \<and>
   length (rows customers_cleaned) = length (drop_duplicates (rows customers_example)) \<and>
   NA \<notin> set (column_at 0 (rows customers_cleaned)) \<and>
   NA \<notin> set (column_at 1 (rows customers_cleaned))"
proof -
  have h1: "wf_table customers_example"
    by (simp add: customers_example_def wf_table_def row_ok_def cell_ok_def col_names_def)
  have d0: "dtype_at customers_example 0 = Numeric"
    by (simp add: customers_example_def dtype_at_def)
  have e0: "\<not> entirely_missing (column_at 0 (rows customers_example))"
    by (simp add: customers_example_def entirely_missing_def column_at_def)
  have e1: "\<not> entirely_missing (column_at 1 (rows customers_example))"
    by (simp add: customers_example_def entirely_missing_def column_at_def)
  have len: "length (columns customers_example) = 2" by (simp add: customers_example_def)
  have h2: "\<forall>i<length (columns customers_example). dtype_at customers_example i = Categorical \<longrightarrow>
           \<not> entirely_missing (column_at i (rows customers_example))"
    using d0 e1 by (simp add: len numeral_2_eq_2 less_Suc_eq)
  obtain t' where t': "clean_data customers_example = Inr t'"
      "length (rows t') = length (drop_duplicates (rows customers_example))"
      "\<forall>i<length (columns customers_example).
          \<not> entirely_missing (column_at i (rows customers_example)) \<longrightarrow>
          NA \<notin> set (column_at i (rows t'))"
    using clean_data_dedups_and_imputes[OF h1 h2] by blast
  have eq: "t' = customers_cleaned" using t'(1) clean_customers by simp
  have a: "length (rows customers_cleaned) = length (drop_duplicates (rows customers_example))"
    using t'(2) eq by simp
  have b: "NA \<notin> set (column_at 0 (rows customers_cleaned))" using t'(3) e0 eq len by simp
  have c: "NA \<notin> set (column_at 1 (rows customers_cleaned))" using t'(3) e1 eq len by simp
  show ?thesis by (intro conjI) (rule h1 d0 e0 e1 clean_customers a b c)+
qed

text \<open>The claim as stated leaves no missing value when a numeric column is entirely
  missing; the code returns the column as it was.\<close>

theorem missing_numeric_column_counterexample:
  "clean_data \<lparr>columns = [(''Review Rating'', Numeric)], rows = [[NA]]\<rparr> =
     Inr \<lparr>columns = [(''Review Rating'', Numeric)], rows = [[NA]]\<rparr>"
  by (simp add: clean_data_def Let_def drop_duplicates_def numeric_medians_def column_at_def
      median_def fillna_rows_def cat_cols_def)

section \<open>An entirely missing categorical column (C4)\<close>

text \<open>
  Claim C4. For a well-formed frame, \<open>clean_data\<close> raises exactly when some categorical
  column is entirely missing (it has rows and all its values are missing): \<open>mode()\<close> is
  then empty and \<open>mode()[0]\<close> raises \<open>KeyError\<close>, which is the error the specification
  calls EmptyColumnError. No other error is raised, no default value is substituted, and
  in every other case a frame is returned.
\<close>

theorem clean_data_raises_iff_column_missing:
  assumes "wf_table t"
  shows "(clean_data t = Inl KeyError) =
           (\<exists>i<length (columns t). dtype_at t i = Categorical \<and>
              entirely_missing (column_at i (rows t))) \<and>
         (\<forall>e. clean_data t = Inl e \<longrightarrow> e = KeyError) \<and>
         ((\<exists>t'. clean_data t = Inr t') =
           (\<not> (\<exists>i<length (columns t). dtype_at t i = Categorical \<and>
              entirely_missing (column_at i (rows t)))))"
proof -
  let ?bad = "\<exists>i<length (columns t). dtype_at t i = Categorical \<and>
              entirely_missing (column_at i (rows t))"
  from clean_data_result[OF assms] show ?thesis
  proof
    assume "clean_data t = Inl KeyError \<and>
        (\<exists>i<length (columns t). dtype_at t i = Categorical \<and>
           mode_fails (column_at i (drop_duplicates (rows t))))"
    then obtain i where f: "clean_data t = Inl KeyError" "i < length (columns t)"
        "dtype_at t i = Categorical" "mode_fails (column_at i (drop_duplicates (rows t)))"
      by blast
    have "entirely_missing (column_at i (rows t))"
      using f(4) mode_fails_typed[OF assms f(2,3)] by simp
    then have ?bad using f(2,3) by blast
    then show ?thesis using f(1) by simp
  next
    assume "\<exists>rs'. clean_data t = Inr (t\<lparr>rows := rs'\<rparr>) \<and>
        length rs' = length (drop_duplicates (rows t)) \<and>
        (\<forall>i<length (columns t). dtype_at t i = Categorical \<longrightarrow>
           \<not> mode_fails (column_at i (drop_duplicates (rows t)))) \<and>
        (\<forall>i<length (columns t).
           column_at i rs' = impute (dtype_at t i) (column_at i (drop_duplicates (rows t))))"
    then obtain rs' where r: "clean_data t = Inr (t\<lparr>rows := rs'\<rparr>)"
        "\<forall>i<length (columns t). dtype_at t i = Categorical \<longrightarrow>
           \<not> mode_fails (column_at i (drop_duplicates (rows t)))"
      by blast
    have "\<not> ?bad"
    proof
      assume ?bad
      then obtain i where i: "i < length (columns t)" "dtype_at t i = Categorical"
          "entirely_missing (column_at i (rows t))" by blast
      then show False using r(2) mode_fails_typed[OF assms i(1,2)] by simp
    qed
    then show ?thesis using r(1) by simp
  qed
qed

theorem clean_data_raises_iff_column_missing_witness:
  "wf_table no_gender_example \<and> (1::nat) < length (columns no_gender_example) \<and>
   dtype_at no_gender_example 1 = Categorical \<and>
   entirely_missing (column_at 1 (rows no_gender_example)) \<and>
   clean_data no_gender_example = Inl KeyError"
proof -
  have h: "wf_table no_gender_example"
    by (simp add: no_gender_example_def wf_table_def row_ok_def cell_ok_def col_names_def)
  have a: "(1::nat) < length (columns no_gender_example)" by (simp add: no_gender_example_def)
  have b: "dtype_at no_gender_example 1 = Categorical"
    by (simp add: no_gender_example_def dtype_at_def)
  have c: "entirely_missing (column_at 1 (rows no_gender_example))"
    by (simp add: no_gender_example_def entirely_missing_def column_at_def)
  have "clean_data no_gender_example = Inl KeyError"
    using clean_data_raises_iff_column_missing[OF h] a b c by blast
  then show ?thesis using h a b c by simp
qed

section \<open>Clean frames are fixed points (C6)\<close>

text \<open>
  Claim C6, as the code has it. A well-formed frame without duplicate rows and without
  missing values is returned unchanged by \<open>clean_data\<close>. The second half of the claim,
  that cleaning twice is cleaning once, does not follow: the duplicates are removed before
  the missing values are filled, and filling can make two rows equal, which only a second
  pass removes.
\<close>

theorem clean_data_fixed_on_clean_tables:
  assumes "wf_table t" and "distinct (rows t)" and "\<forall>r\<in>set (rows t). NA \<notin> set r"
  shows "clean_data t = Inr t"
proof -
  have ok: "rows_ok (length (columns t)) (rows t)"
    using wf_table_len_ok[OF assms(1)] by (simp add: len_ok_rows_ok)
  have d: "drop_duplicates (rows t) = rows t" by (rule drop_duplicates_distinct[OF assms(2)])
  have f: "fillna_rows (numeric_medians (columns t) (rows t)) (rows t) = rows t"
    by (rule fillna_rows_no_NA[OF ok _ assms(3)]) simp
  have "NA \<notin> set (column_at i (rows t))" if "i \<in> set (cat_cols (columns t))" for i
  proof
    assume "NA \<in> set (column_at i (rows t))"
    then obtain r where r: "r \<in> set (rows t)" "r ! i = NA" by (auto simp: column_at_def)
    have "i < length r" using that ok r(1) by (simp add: cat_cols_set rows_ok_def list_all_iff)
    then have "NA \<in> set r" using r(2) nth_mem by metis
    then show False using assms(3) r(1) by blast
  qed
  then have m: "fill_modes (cat_cols (columns t)) (rows t) = Inr (rows t)"
    by (intro fill_modes_no_NA) blast
  show ?thesis by (simp add: clean_data_def Let_def d f m)
qed

theorem clean_data_fixed_on_clean_tables_witness:
  "wf_table customers_cleaned \<and> distinct (rows customers_cleaned) \<and>
   NA \<notin> set (concat (rows customers_cleaned)) \<and>
   clean_data customers_cleaned = Inr customers_cleaned"
proof -
  have h1: "wf_table customers_cleaned"
    by (simp add: customers_cleaned_def wf_table_def row_ok_def cell_ok_def col_names_def)
  have h2: "distinct (rows customers_cleaned)" by (simp add: customers_cleaned_def)
  have h3: "NA \<notin> set (concat (rows customers_cleaned))" by (simp add: customers_cleaned_def)
  then have h3': "\<forall>r\<in>set (rows customers_cleaned). NA \<notin> set r" by auto
  show ?thesis
    using h1 h2 h3 clean_data_fixed_on_clean_tables[OF h1 h2 h3'] by simp
qed

lemma clean_pair: "clean_data pair_example = Inr pair_cleaned"
  by (simp add: clean_data_def Let_def pair_example_def pair_cleaned_def drop_duplicates_def
      numeric_medians_def upt_rec column_at_def median_def fillna_rows_def cat_cols_def)

lemma clean_pair_again: "clean_data pair_cleaned = Inr pair_cleaned_twice"
  by (simp add: clean_data_def Let_def pair_cleaned_twice_def pair_cleaned_def drop_duplicates_def
      numeric_medians_def upt_rec column_at_def median_def fillna_rows_def cat_cols_def)

theorem clean_data_twice_counterexample:
  "clean_data pair_example = Inr pair_cleaned \<and>
   clean_data pair_cleaned = Inr pair_cleaned_twice \<and>
   pair_cleaned_twice \<noteq> pair_cleaned"
  by (simp add: clean_pair clean_pair_again) (simp add: pair_cleaned_def pair_cleaned_twice_def)

section \<open>Label encoding (C7)\<close>

text \<open>
  Claim C7 (amended). For a well-formed frame and a column \<open>c\<close> that the label list
  names exactly once, that the frame has, and that is not one-hot encoded as well (which
  replaces it by indicator columns), \<open>encode_categorical\<close> replaces the values of \<open>c\<close>
  by the codes of their string casts. The cast leaves a string as it is, prints a number,
  and makes of a missing value what the library makes of it (\<open>na_str\<close>: the string
  \<open>nan\<close>, or still missing). The classes are the distinct cast values in strictly
  increasing order, a missing value after every string, so the code is a bijection
  between the distinct cast values of the column and \<open>0, \<dots>, n - 1\<close>, and it follows
  that order. Without a one-hot list the call always returns.
\<close>

theorem label_encoding_bijection:
  assumes "wf_table t" and "count_list cols c = 1"
    and "index_of c (col_names t) = Some i"
    and "c \<notin> set (case cols_onehot of None \<Rightarrow> [] | Some oh \<Rightarrow> oh)"
  shows "(cols_onehot = None \<or> cols_onehot = Some [] \<longrightarrow>
           (\<exists>t' encs. encode_categorical fmt t cols_onehot (Some cols) drop_first = Inr (t', encs))) \<and>
         (\<forall>t' encs. encode_categorical fmt t cols_onehot (Some cols) drop_first = Inr (t', encs) \<longrightarrow>
           (\<exists>p. index_of c (col_names t') = Some p \<and>
              column_at p (rows t') =
                map (\<lambda>y. Num (of_nat (code_of (label_classes (label_strings fmt t i)) y)))
                  (label_strings fmt t i))) \<and>
         sorted_wrt class_less (label_classes (label_strings fmt t i)) \<and>
         set (label_classes (label_strings fmt t i)) = set (label_strings fmt t i) \<and>
         bij_betw (code_of (label_classes (label_strings fmt t i)))
           (set (label_strings fmt t i)) {0..<card (set (label_strings fmt t i))} \<and>
         (\<forall>y1\<in>set (label_strings fmt t i). \<forall>y2\<in>set (label_strings fmt t i).
            (code_of (label_classes (label_strings fmt t i)) y1 <
             code_of (label_classes (label_strings fmt t i)) y2) = class_less y1 y2)"
proof -
  define ys where "ys = label_strings fmt t i"
  define classes where "classes = label_classes ys"
  obtain t1 encs1 where l: "label_loop fmt cols (t, Map.empty) = (t1, encs1)"
      "col_names t1 = col_names t"
      "column_at i (rows t1) = encode_col fmt (column_at i (rows t))"
    using encode_label_stage[OF assms(1,2,3), of fmt] by blast
  have col1: "column_at i (rows t1) = map (\<lambda>y. Num (of_nat (code_of classes y))) ys"
    using l(3) by (simp add: encode_col_codes ys_def classes_def)
  have enc: "encode_categorical fmt t cols_onehot (Some cols) drop_first =
      (case cols_onehot of None \<Rightarrow> Inr (t1, encs1) | Some [] \<Rightarrow> Inr (t1, encs1)
       | Some (x # xs) \<Rightarrow> onehot_stage fmt drop_first (x # xs) (t1, encs1))"
    by (simp add: encode_categorical_def Let_def l(1) split: option.splits list.splits)
  have a: "\<exists>t' encs. encode_categorical fmt t cols_onehot (Some cols) drop_first = Inr (t', encs)"
    if "cols_onehot = None \<or> cols_onehot = Some []"
    using that enc by auto
  have b: "\<exists>p. index_of c (col_names t') = Some p \<and>
              column_at p (rows t') = map (\<lambda>y. Num (of_nat (code_of classes y))) ys"
    if run: "encode_categorical fmt t cols_onehot (Some cols) drop_first = Inr (t', encs)"
    for t' encs
  proof (cases cols_onehot)
    case None
    then have "t' = t1" using run enc by simp
    then show ?thesis using col1 assms(3) l(2) by auto
  next
    case (Some oh)
    show ?thesis
    proof (cases oh)
      case Nil
      then have "t' = t1" using run enc Some by simp
      then show ?thesis using col1 assms(3) l(2) by auto
    next
      case (Cons x xs)
      have oh: "onehot_stage fmt drop_first oh (t1, encs1) = Inr (t', encs)"
        using run enc Some Cons by simp
      have d: "distinct (col_names t1)" using assms(1) l(2) by (simp add: wf_table_def)
      have i1: "index_of c (col_names t1) = Some i" using assms(3) l(2) by simp
      have notin: "c \<notin> set oh" using assms(4) Some by simp
      from onehot_stage_keeps[OF d i1 notin oh] show ?thesis using col1 by auto
    qed
  qed
  have s: "sorted_wrt class_less classes" "set classes = set ys" "distinct classes"
      "length classes = card (set ys)"
    using classes_props[of ys] by (simp_all add: classes_def)
  have bij: "bij_betw (code_of classes) (set ys) {0..<card (set ys)}"
    using code_of_bij[OF s(3)] s(2,4) by simp
  have ord: "(code_of classes y1 < code_of classes y2) = class_less y1 y2"
    if "y1 \<in> set ys" "y2 \<in> set ys" for y1 y2
    using code_of_order[OF s(1) s(3)] that s(2) by simp
  show ?thesis
    unfolding ys_def[symmetric] classes_def[symmetric]
  proof (intro conjI allI impI ballI)
    show "\<exists>t' encs. encode_categorical fmt t cols_onehot (Some cols) drop_first = Inr (t', encs)"
      if "cols_onehot = None \<or> cols_onehot = Some []" by (rule a[OF that])
    show "\<exists>p. index_of c (col_names t') = Some p \<and>
              column_at p (rows t') = map (\<lambda>y. Num (of_nat (code_of classes y))) ys"
      if "encode_categorical fmt t cols_onehot (Some cols) drop_first = Inr (t', encs)" for t' encs
      by (rule b[OF that])
    show "sorted_wrt class_less classes" by (rule s(1))
    show "set classes = set ys" by (rule s(2))
    show "bij_betw (code_of classes) (set ys) {0..<card (set ys)}" by (rule bij)
    show "(code_of classes y1 < code_of classes y2) = class_less y1 y2"
      if "y1 \<in> set ys" "y2 \<in> set ys" for y1 y2 by (rule ord[OF that])
  qed
qed

theorem label_encoding_bijection_witness:
  "wf_table sizes_example \<and> count_list [''Size''] ''Size'' = 1 \<and>
   index_of ''Size'' (col_names sizes_example) = Some 0 \<and>
   label_strings fmt_digits sizes_example 0 = [Some ''b'', None, Some ''a'', Some ''z''] \<and>
   label_classes (label_strings fmt_digits sizes_example 0) = [Some ''a'', Some ''b'', Some ''z'', None] \<and>
   (\<exists>t' encs p.
      encode_categorical fmt_digits sizes_example None (Some [''Size'']) True = Inr (t', encs) \<and>
      index_of ''Size'' (col_names t') = Some p \<and>
      column_at p (rows t') = [Num 1, Num 3, Num 0, Num 2])"
proof -
  have h1: "wf_table sizes_example"
    by (simp add: sizes_example_def wf_table_def row_ok_def cell_ok_def col_names_def)
  have h2: "count_list [''Size''] ''Size'' = 1" by simp
  have h4: "index_of ''Size'' (col_names sizes_example) = Some 0"
    by (simp add: sizes_example_def col_names_def)
  have h5: "''Size'' \<notin> set (case None :: string list option of None \<Rightarrow> [] | Some oh \<Rightarrow> oh)"
    by simp
  have ys: "label_strings fmt_digits sizes_example 0 = [Some ''b'', None, Some ''a'', Some ''z'']"
    by (simp add: label_strings_def sizes_example_def column_at_def fmt_digits_def)
  have cl: "label_classes (label_strings fmt_digits sizes_example 0) =
      [Some ''a'', Some ''b'', Some ''z'', None]"
    unfolding label_classes_def ys by simp
  note th = label_encoding_bijection[OF h1 h2 h4 h5, of fmt_digits True]
  obtain t' encs where run:
      "encode_categorical fmt_digits sizes_example None (Some [''Size'']) True = Inr (t', encs)"
    using th by blast
  obtain p where p: "index_of ''Size'' (col_names t') = Some p"
      "column_at p (rows t') =
         map (\<lambda>y. Num (of_nat (code_of (label_classes (label_strings fmt_digits sizes_example 0)) y)))
           (label_strings fmt_digits sizes_example 0)"
    using th run by blast
  have "column_at p (rows t') = [Num 1, Num 3, Num 0, Num 2]"
    unfolding p(2) cl unfolding ys by (simp add: code_of_def)
  then have ex: "\<exists>t' encs p.
      encode_categorical fmt_digits sizes_example None (Some [''Size'']) True = Inr (t', encs) \<and>
      index_of ''Size'' (col_names t') = Some p \<and>
      column_at p (rows t') = [Num 1, Num 3, Num 0, Num 2]"
    using run p(1) by blast
  show ?thesis by (intro conjI) (rule h1 h2 h4 ys cl ex)+
qed

text \<open>The rounds of the label loop on the two inputs below.\<close>

lemma label_gender_round: "label_loop fmt_digits [''Gender''] (customers_cleaned, Map.empty) =
   (\<lparr>columns = [(''Age'', Numeric), (''Gender'', Integer 64)],
      rows = [[Num 30, Num 1], [Num 40, Num 0], [Num 50, Num 1], [Num 40, Num 1]]\<rparr>,
    [''Gender'' \<mapsto> LabelEncoder [Some ''Female'', Some ''Male'']])"
  by (simp add: label_step_def customers_cleaned_def col_names_def column_at_def
      fit_transform_def astype_str_def set_column_def Let_def)

lemma label_sizes_first_round: "label_step fmt_digits ''Size'' (letters_example, Map.empty) =
   (\<lparr>columns = [(''Size'', Integer 64)],
      rows = [[Num 0], [Num 1], [Num 2], [Num 3], [Num 4], [Num 5],
              [Num 6], [Num 7], [Num 8], [Num 9], [Num 10]]\<rparr>,
    [''Size'' \<mapsto> LabelEncoder [Some ''a'', Some ''b'', Some ''c'', Some ''d'', Some ''e'', Some ''f'',
       Some ''g'', Some ''h'', Some ''i'', Some ''j'', Some ''k'']])"
  by (simp add: label_step_def letters_example_def col_names_def column_at_def
      fit_transform_def astype_str_def set_column_def Let_def)

lemma label_sizes_second_round: "fst (label_step fmt_digits ''Size''
   (\<lparr>columns = [(''Size'', Integer 64)],
      rows = [[Num 0], [Num 1], [Num 2], [Num 3], [Num 4], [Num 5],
              [Num 6], [Num 7], [Num 8], [Num 9], [Num 10]]\<rparr>, encs)) =
   \<lparr>columns = [(''Size'', Integer 64)],
      rows = [[Num 0], [Num 1], [Num 3], [Num 4], [Num 5], [Num 6],
              [Num 7], [Num 8], [Num 9], [Num 10], [Num 2]]\<rparr>"
  by (simp add: label_step_def col_names_def column_at_def fmt_digits_def
      fit_transform_def astype_str_def set_column_def Let_def)

text \<open>
  The claim as the spec words it holds for every column of the label list that the frame
  has. Two inputs show what it leaves out. First, a column that is in the one-hot list
  as well: \<open>Gender\<close> is label encoded and then replaced by the indicator column
  \<open>Gender_1\<close>, so the result has no column \<open>Gender\<close> holding the codes. Second, a
  column that the label list names twice is encoded twice, the second time from the
  printed codes of the first: for eleven sizes \<open>a\<close> to \<open>k\<close> the strings \<open>0\<close> to \<open>10\<close>
  sort as \<open>0, 1, 10, 2, \<dots>\<close>, and the greatest size \<open>k\<close> ends with the code 2, below
  the code 3 of the size \<open>c\<close>.
\<close>

theorem label_column_dropped_or_reencoded_counterexample:
  "map_sum id fst (encode_categorical fmt_digits customers_cleaned
       (Some [''Gender'']) (Some [''Gender'']) True) =
     Inr \<lparr>columns = [(''Age'', Numeric), (''Gender_1'', Numeric)],
          rows = [[Num 30, Num 1], [Num 40, Num 0], [Num 50, Num 1], [Num 40, Num 1]]\<rparr> \<and>
   map_sum id fst (encode_categorical fmt_digits letters_example None
       (Some [''Size'', ''Size'']) True) =
     Inr \<lparr>columns = [(''Size'', Integer 64)],
      rows = [[Num 0], [Num 1], [Num 3], [Num 4], [Num 5], [Num 6],
              [Num 7], [Num 8], [Num 9], [Num 10], [Num 2]]\<rparr>"
proof
  show "map_sum id fst (encode_categorical fmt_digits customers_cleaned
       (Some [''Gender'']) (Some [''Gender'']) True) =
     Inr \<lparr>columns = [(''Age'', Numeric), (''Gender_1'', Numeric)],
          rows = [[Num 30, Num 1], [Num 40, Num 0], [Num 50, Num 1], [Num 40, Num 1]]\<rparr>"
    unfolding encode_categorical_def Let_def option.case label_gender_round list.case
    by (simp add: onehot_stage_def col_names_def column_at_def ohe_categories_def
        category_str_def fmt_digits_def Let_def)
  show "map_sum id fst (encode_categorical fmt_digits letters_example None
       (Some [''Size'', ''Size'']) True) =
     Inr \<lparr>columns = [(''Size'', Integer 64)],
      rows = [[Num 0], [Num 1], [Num 3], [Num 4], [Num 5], [Num 6],
              [Num 7], [Num 8], [Num 9], [Num 10], [Num 2]]\<rparr>"
    unfolding encode_categorical_def Let_def option.case label_loop.simps label_sizes_first_round
    using label_sizes_second_round by (simp add: prod_eq_iff)
qed

end
